theory Spec2Isabelle
  imports Main
begin

section \<open>Data model of the Hill cipher engine (src/hill\_cipher.py)\<close>

text \<open>
  A two-dimensional integer array is a list of rows of one length; the empty list is the
  \<open>0 \<times> 0\<close> array. What \<open>np.array\<close> does not turn into a two-dimensional array (the
  empty list of a JSON file, rows of different lengths) is outside this type. A value of
  an 8-bit array is an \<open>int\<close> in \<open>[0, 255]\<close>; the conversion \<open>astype(np.uint8)\<close> is
  written out as \<open>mod 256\<close>. Integers are unbounded, as the 64-bit arithmetic of the
  source is on byte-valued keys. Python exceptions are values of \<open>error\<close>.
\<close>

type_synonym matrix = "int list list"

datatype error =
    LinAlgError
  | ValueError string
  | ZeroDivisionError
  | FileNotFoundError
  | KeyError
  | IndexError
  | TypeError
  | AttributeError
  | OSError

text \<open>The instance fields set by \<open>HillCipher.__init__\<close>.\<close>

record hill_cipher =
  block_size :: nat
  key_matrix :: "matrix option"
  inverse_key_matrix :: "matrix option"

section \<open>Padding\<close>

text \<open>
  \<open>pad_data\<close>: \<open>remainder = len(data) % self.block_size\<close> raises ZeroDivisionError for
  a block size of 0; otherwise zeros are appended when the remainder is not 0.
\<close>

definition pad_data :: "hill_cipher \<Rightarrow> int list \<Rightarrow> error + int list" where
  "pad_data self data =
     (if block_size self = 0 then Inl ZeroDivisionError
      else let remainder = length data mod block_size self in
        if remainder \<noteq> 0
        then let padding = block_size self - remainder in Inr (data @ replicate padding 0)
        else Inr data)"

section \<open>Modular arithmetic\<close>

text \<open>\<open>HillCipher.gcd\<close>: \<open>while b: a, b = b, a % b\<close> on Python integers.\<close>

function gcd_hc :: "int \<Rightarrow> int \<Rightarrow> int" where
  "gcd_hc a b = (if b \<noteq> 0 then gcd_hc b (a mod b) else a)"
  by pat_completeness auto
termination
  by (relation "measure (\<lambda>(a, b). nat \<bar>b\<bar>)") (auto simp: abs_mod_less)

declare gcd_hc.simps [simp del]

text \<open>The helper \<open>extended_gcd\<close> nested in \<open>mod_inverse\<close>.\<close>

function extended_gcd :: "int \<Rightarrow> int \<Rightarrow> int \<times> int \<times> int" where
  "extended_gcd a b =
     (if a = 0 then (b, 0, 1)
      else case extended_gcd (b mod a) a of
             (g, x1, y1) \<Rightarrow> let x = y1 - (b div a) * x1; y = x1 in (g, x, y))"
  by pat_completeness auto
termination
  by (relation "measure (\<lambda>(a, b). nat \<bar>a\<bar>)") (auto simp: abs_mod_less)

declare extended_gcd.simps [simp del]

definition mod_inverse :: "int \<Rightarrow> int \<Rightarrow> error + int" where
  "mod_inverse a m =
     (if gcd_hc a m \<noteq> 1 then Inl (ValueError ''Modular inverse does not exist'')
      else if m = 0 then Inl ZeroDivisionError
      else case extended_gcd (a mod m) m of (_, x, _) \<Rightarrow> Inr ((x mod m + m) mod m))"

section \<open>Matrices\<close>

text \<open>
  \<open>np.delete(xs, i)\<close> along one axis, and the minor obtained by deleting row \<open>i\<close> and
  column \<open>j\<close>: \<open>np.delete(np.delete(matrix, i, axis=0), j, axis=1)\<close>.
\<close>

definition np_delete :: "nat \<Rightarrow> 'a list \<Rightarrow> 'a list" where
  "np_delete i xs = take i xs @ drop (Suc i) xs"

definition minor :: "matrix \<Rightarrow> nat \<Rightarrow> nat \<Rightarrow> matrix" where
  "minor M i j = map (np_delete j) (np_delete i M)"

text \<open>
  \<open>np.linalg.det\<close> raises LinAlgError unless the last two dimensions are equal. A list
  of rows is a square array when every row is as long as the list.
\<close>

definition is_square :: "matrix \<Rightarrow> bool" where
  "is_square M \<longleftrightarrow> list_all (\<lambda>row. length row = length M) M"

definition ncols :: "matrix \<Rightarrow> nat" where
  "ncols M = (case M of [] \<Rightarrow> 0 | row # _ \<Rightarrow> length row)"

text \<open>
  The exact integer determinant, by recursive minor expansion along the first column.
  It is the reference that the rounded floating-point determinant of the source is
  compared with; \<open>detf n A\<close> is the determinant of the leading \<open>n \<times> n\<close> part of the
  array \<open>A\<close> given by its entries.
\<close>

definition skip :: "nat \<Rightarrow> nat \<Rightarrow> nat" where
  "skip i r = (if r < i then r else Suc r)"

fun detf :: "nat \<Rightarrow> (nat \<Rightarrow> nat \<Rightarrow> int) \<Rightarrow> int" where
  "detf 0 A = 1"
| "detf (Suc n) A =
     (\<Sum>i\<leftarrow>[0..<Suc n]. (- 1) ^ i * A i 0 * detf n (\<lambda>r c. A (skip i r) (Suc c)))"

declare detf.simps(2) [simp del]

text \<open>
  The array without row \<open>i\<close> and column \<open>j\<close>, and the position that an index other
  than \<open>i\<close> has after \<open>i\<close> is deleted.
\<close>

definition minorf :: "(nat \<Rightarrow> nat \<Rightarrow> int) \<Rightarrow> nat \<Rightarrow> nat \<Rightarrow> nat \<Rightarrow> nat \<Rightarrow> int" where
  "minorf A i j = (\<lambda>r c. A (skip i r) (skip j c))"

definition unskip :: "nat \<Rightarrow> nat \<Rightarrow> nat" where
  "unskip i q = (if q < i then q else q - 1)"

definition det :: "matrix \<Rightarrow> int" where
  "det M = detf (length M) (\<lambda>r c. M ! r ! c)"

text \<open>
  \<open>matrix_inverse_mod\<close>. The source obtains determinants as
  \<open>int(np.round(np.linalg.det(matrix)))\<close>: NumPy's floating-point determinant, rounded.
  The floating-point computation itself is not modelled; the rounded determinant is the
  parameter \<open>det_round\<close> of every operation that reaches it. What is known of its value
  is that a float64 holds it (\<open>is_float64_int\<close> below). The cofactor
  \<open>((-1) ** (i + j)) * np.round(np.linalg.det(minor))\<close> is stored at \<open>adjugate[j, i]\<close>
  after \<open>% mod\<close>.
\<close>

definition adjugate2 :: "matrix \<Rightarrow> matrix" where
  "adjugate2 M = [[M ! 1 ! 1, - (M ! 0 ! 1)], [- (M ! 1 ! 0), M ! 0 ! 0]]"

definition adjugate_cofactor :: "(matrix \<Rightarrow> int) \<Rightarrow> matrix \<Rightarrow> int \<Rightarrow> matrix" where
  "adjugate_cofactor det_round M m =
     map (\<lambda>j. map (\<lambda>i. ((- 1) ^ (i + j) * det_round (minor M i j)) mod m) [0..<length M])
         [0..<ncols M]"

definition matrix_inverse_mod :: "(matrix \<Rightarrow> int) \<Rightarrow> matrix \<Rightarrow> int \<Rightarrow> error + matrix" where
  "matrix_inverse_mod det_round M m =
     (if \<not> is_square M then Inl LinAlgError
      else if m = 0 then Inl ZeroDivisionError
      else let d = det_round M mod m in
        case mod_inverse d m of
          Inl e \<Rightarrow> Inl e
        | Inr det_inv \<Rightarrow>
            let adjugate = (if length M = 2 then adjugate2 M else adjugate_cofactor det_round M m)
            in Inr (map (map (\<lambda>x. (det_inv * x) mod m)) adjugate))"

section \<open>Integers that a float64 holds\<close>

text \<open>
  \<open>np.linalg.det\<close> returns a float64, and \<open>np.round\<close> of a float64 is a float64
  again. A float64 is \<open>m * 2 ^ e\<close> with \<open>|m| < 2 ^ 53\<close>, so an integer is the value of a
  float64 exactly when its odd part is below \<open>2 ^ 53\<close> (and it is below \<open>2 ^ 1024\<close>).
\<close>

function odd_part :: "int \<Rightarrow> int" where
  "odd_part n = (if n = 0 \<or> odd n then n else odd_part (n div 2))"
  by pat_completeness auto
termination
  by (relation "measure (\<lambda>n. nat \<bar>n\<bar>)") auto

declare odd_part.simps [simp del]

definition is_float64_int :: "int \<Rightarrow> bool" where
  "is_float64_int n \<longleftrightarrow> \<bar>odd_part n\<bar> < 2 ^ 53 \<and> \<bar>n\<bar> < 2 ^ 1024"

section \<open>Setting the key\<close>

text \<open>
  \<open>set_key_matrix\<close> assigns \<open>self.key_matrix\<close> first and computes the inverse second;
  an exception of the second step is caught, printed and answered with False. The result
  is the returned boolean, the exception printed (if any) and the instance afterwards.
\<close>

definition set_key_matrix ::
  "(matrix \<Rightarrow> int) \<Rightarrow> hill_cipher \<Rightarrow> matrix \<Rightarrow> bool \<times> error option \<times> hill_cipher" where
  "set_key_matrix det_round self km =
     (let self1 = self\<lparr>key_matrix := Some km\<rparr> in
      case matrix_inverse_mod det_round km 256 of
        Inl e \<Rightarrow> (False, Some e, self1)
      | Inr inverse_m \<Rightarrow> (True, None, self1\<lparr>inverse_key_matrix := Some inverse_m\<rparr>))"

text \<open>\<open>HillCipher()\<close>: the constructor with its default arguments.\<close>

definition new_cipher :: hill_cipher where
  "new_cipher = \<lparr>block_size = 2, key_matrix = None, inverse_key_matrix = None\<rparr>"

section \<open>Block encryption and decryption\<close>

text \<open>
  \<open>np.dot\<close> of a two-dimensional array and a vector raises ValueError unless the
  number of columns equals the vector's length.
\<close>

definition np_dot :: "matrix \<Rightarrow> int list \<Rightarrow> error + int list" where
  "np_dot A v =
     (if ncols A \<noteq> length v then Inl (ValueError ''shapes not aligned'')
      else Inr (map (\<lambda>row. \<Sum>(a, x)\<leftarrow>zip row v. a * x) A))"

definition encrypt_block :: "hill_cipher \<Rightarrow> int list \<Rightarrow> error + int list" where
  "encrypt_block self block =
     (case key_matrix self of
        None \<Rightarrow> Inl (ValueError ''Key matrix not set'')
      | Some K \<Rightarrow>
          (case np_dot K block of
             Inl e \<Rightarrow> Inl e
           | Inr v \<Rightarrow> Inr (map (\<lambda>x. (x mod 256) mod 256) v)))"

definition decrypt_block :: "hill_cipher \<Rightarrow> int list \<Rightarrow> error + int list" where
  "decrypt_block self block =
     (case inverse_key_matrix self of
        None \<Rightarrow> Inl (ValueError ''Inverse key matrix not calculated'')
      | Some K \<Rightarrow>
          (case np_dot K block of
             Inl e \<Rightarrow> Inl e
           | Inr v \<Rightarrow> Inr (map (\<lambda>x. (x mod 256) mod 256) v)))"

section \<open>Files\<close>

text \<open>
  A JSON object as the engine writes and reads it: each of the four keys is absent or
  holds a value of the type the engine stores under it (\<open>json.dump\<close> followed by
  \<open>json.load\<close> returns integers and lists of integers unchanged). An image file holds
  the array that \<open>np.array(Image.open(path))\<close> yields (its shape and its values in
  row-major order) and the mode of the image; the file format is taken to be lossless
  (PNG), and the errors of \<open>Image.save\<close> for a file extension it does not know are not
  modelled. A path in \<open>read_only\<close> cannot be opened for writing.
\<close>

record json_obj =
  j_key_matrix :: "matrix option"
  j_block_size :: "nat option"
  j_original_shape :: "nat list option"
  j_image_mode :: "string option"

record image =
  shape :: "nat list"
  mode :: string
  pixels :: "int list"

datatype file_content = Json json_obj | Img image

record filesystem =
  files :: "string \<rightharpoonup> file_content"
  read_only :: "string set"

definition write_file :: "filesystem \<Rightarrow> string \<Rightarrow> file_content \<Rightarrow> error + filesystem" where
  "write_file fs path f =
     (if path \<in> read_only fs then Inl OSError
      else Inr (fs\<lparr>files := (files fs)(path \<mapsto> f)\<rparr>))"

section \<open>Saving and loading a key\<close>

definition save_key :: "hill_cipher \<Rightarrow> filesystem \<Rightarrow> string \<Rightarrow> bool \<times> filesystem" where
  "save_key self fs filepath =
     (case key_matrix self of
        None \<Rightarrow> (False, fs)
      | Some K \<Rightarrow>
          let key_data = \<lparr>j_key_matrix = Some K, j_block_size = Some (block_size self),
                          j_original_shape = None, j_image_mode = None\<rparr> in
          (case write_file fs filepath (Json key_data) of
             Inl e \<Rightarrow> (False, fs)
           | Inr fs' \<Rightarrow> (True, fs')))"

text \<open>
  \<open>load_key\<close>: a missing file, a file that is not JSON and a missing \<open>key_matrix\<close> entry
  raise before anything is assigned; \<open>key_data.get('block_size', 2)\<close> is assigned before
  \<open>set_key_matrix\<close> runs.
\<close>

definition load_key ::
  "(matrix \<Rightarrow> int) \<Rightarrow> hill_cipher \<Rightarrow> filesystem \<Rightarrow> string \<Rightarrow> bool \<times> hill_cipher" where
  "load_key det_round self fs filepath =
     (case files fs filepath of
        None \<Rightarrow> (False, self)
      | Some (Img _) \<Rightarrow> (False, self)
      | Some (Json key_data) \<Rightarrow>
          (case j_key_matrix key_data of
             None \<Rightarrow> (False, self)
           | Some km \<Rightarrow>
               let self1 = self\<lparr>block_size := (case j_block_size key_data of None \<Rightarrow> 2 | Some b \<Rightarrow> b)\<rparr>
               in case set_key_matrix det_round self1 km of (ok, _, self2) \<Rightarrow> (ok, self2)))"

section \<open>Image encryption and decryption\<close>

text \<open>
  The loop \<open>for i in range(0, len(data), self.block_size)\<close> of \<open>encrypt_image\<close> and
  \<open>decrypt_image\<close>: the slice \<open>data[i:i+block_size]\<close> is transformed by \<open>f\<close>
  (\<open>encrypt_block\<close> or \<open>decrypt_block\<close>) and the results are appended; an exception
  of \<open>f\<close> ends the loop.
\<close>

function process_blocks ::
  "(int list \<Rightarrow> error + int list) \<Rightarrow> nat \<Rightarrow> int list \<Rightarrow> error + int list" where
  "process_blocks f n xs =
     (if n = 0 then Inl (ValueError ''range() arg 3 must not be zero'')
      else if xs = [] then Inr []
      else case f (take n xs) of
             Inl e \<Rightarrow> Inl e
           | Inr b \<Rightarrow>
               (case process_blocks f n (drop n xs) of
                  Inl e \<Rightarrow> Inl e
                | Inr r \<Rightarrow> Inr (b @ r)))"
  by pat_completeness auto
termination
  by (relation "measure (\<lambda>(f, n, xs). length xs)") auto

declare process_blocks.simps [simp del]

text \<open>One flattened channel: pad, then transform block by block.\<close>

definition process_channel ::
  "(int list \<Rightarrow> error + int list) \<Rightarrow> hill_cipher \<Rightarrow> int list \<Rightarrow> error + int list" where
  "process_channel f self data =
     (case pad_data self data of
        Inl e \<Rightarrow> Inl e
      | Inr padded \<Rightarrow> process_blocks f (block_size self) padded)"

text \<open>
  \<open>image_array[:, :, channel].flatten()\<close> on the array of an image file, which has two
  or three dimensions: IndexError on a two-dimensional array and on a channel index out
  of range.
\<close>

definition channel_data :: "image \<Rightarrow> nat \<Rightarrow> error + int list" where
  "channel_data img channel =
     (case shape img of
        [h, w, c] \<Rightarrow>
          if channel < c then Inr (map (\<lambda>k. pixels img ! (k * c + channel)) [0..<h * w])
          else Inl IndexError
      | _ \<Rightarrow> Inl IndexError)"

text \<open>\<open>for channel in range(original_shape[2])\<close>, stopping at the first exception.\<close>

fun for_channels :: "(nat \<Rightarrow> error + int list) \<Rightarrow> nat list \<Rightarrow> error + int list list" where
  "for_channels g [] = Inr []"
| "for_channels g (c # cs) =
     (case g c of
        Inl e \<Rightarrow> Inl e
      | Inr d \<Rightarrow> (case for_channels g cs of Inl e \<Rightarrow> Inl e | Inr ds \<Rightarrow> Inr (d # ds)))"

text \<open>
  \<open>np.array(channels).T[:np.prod(original_shape[:2])].reshape(original_shape)\<close>: the
  transposed array has one row per position and one column per channel; the slice keeps
  at most \<open>H * W\<close> rows and \<open>reshape\<close> raises ValueError unless the number of values
  is the product of the shape. The result is given in row-major order.
\<close>

definition stack_channels :: "nat list \<Rightarrow> int list list \<Rightarrow> error + int list" where
  "stack_channels original_shape channels =
     (let rows = (case channels of [] \<Rightarrow> 0
                  | d # _ \<Rightarrow> min (length d) (prod_list (take 2 original_shape)))
      in if rows * length channels \<noteq> prod_list original_shape
         then Inl (ValueError ''cannot reshape array'')
         else Inr (concat (map (\<lambda>k. map (\<lambda>d. d ! k) channels) [0..<rows])))"

text \<open>
  \<open>np.array(data)[:np.prod(original_shape)].reshape(original_shape)\<close>: \<open>np.prod(())\<close>
  is the float \<open>1.0\<close>, which is no slice index (TypeError).
\<close>

definition reshape_flat :: "nat list \<Rightarrow> int list \<Rightarrow> error + int list" where
  "reshape_flat original_shape data =
     (if original_shape = [] then Inl TypeError
      else if min (length data) (prod_list original_shape) \<noteq> prod_list original_shape
      then Inl (ValueError ''cannot reshape array'')
      else Inr (take (prod_list original_shape) data))"

text \<open>
  The body shared by \<open>encrypt_image\<close> and \<open>decrypt_image\<close>: the branch on
  \<open>len(original_shape) == 3\<close>, with \<open>f\<close> the block operation.
\<close>

definition transform_array ::
  "(int list \<Rightarrow> error + int list) \<Rightarrow> hill_cipher \<Rightarrow> nat list \<Rightarrow> image \<Rightarrow> error + int list" where
  "transform_array f self original_shape img =
     (if length original_shape = 3
      then (case for_channels
                   (\<lambda>channel. case channel_data img channel of
                                 Inl e \<Rightarrow> Inl e
                               | Inr d \<Rightarrow> process_channel f self d)
                   [0..<original_shape ! 2] of
              Inl e \<Rightarrow> Inl e
            | Inr channels \<Rightarrow> stack_channels original_shape channels)
      else (case process_channel f self (pixels img) of
              Inl e \<Rightarrow> Inl e
            | Inr data \<Rightarrow> reshape_flat original_shape data))"

text \<open>\<open>path.rsplit('.', 1)[0] + '_metadata.json'\<close>.\<close>

definition metadata_path_of :: "string \<Rightarrow> string" where
  "metadata_path_of path =
     (if CHR ''.'' \<in> set path
      then rev (tl (dropWhile (\<lambda>c. c \<noteq> CHR ''.'') (rev path)))
      else path) @ ''_metadata.json''"

text \<open>\<open>Image.open(path)\<close> followed by \<open>np.array(image)\<close>.\<close>

definition open_image :: "filesystem \<Rightarrow> string \<Rightarrow> error + image" where
  "open_image fs path =
     (case files fs path of
        None \<Rightarrow> Inl FileNotFoundError
      | Some (Json _) \<Rightarrow> Inl OSError
      | Some (Img img) \<Rightarrow> Inr img)"

text \<open>
  \<open>encrypt_image\<close> returns \<open>(True, message)\<close>, modelled as \<open>Inr message\<close>, or
  \<open>(False, "Encryption failed: ...")\<close>, modelled as \<open>Inl\<close> of the exception caught.
  \<open>Image.fromarray(array.astype(np.uint8), mode)\<close> is taken to accept the array. The
  image is saved before the metadata is written.
\<close>

definition encrypt_image ::
  "hill_cipher \<Rightarrow> filesystem \<Rightarrow> string \<Rightarrow> string \<Rightarrow> (error + string) \<times> filesystem" where
  "encrypt_image self fs image_path output_path =
     (case open_image fs image_path of
        Inl e \<Rightarrow> (Inl e, fs)
      | Inr img \<Rightarrow>
          let original_shape = shape img in
          (case transform_array (encrypt_block self) self original_shape img of
             Inl e \<Rightarrow> (Inl e, fs)
           | Inr encrypted_array \<Rightarrow>
               let encrypted_image = \<lparr>shape = original_shape, mode = mode img,
                                      pixels = map (\<lambda>x. x mod 256) encrypted_array\<rparr> in
               (case write_file fs output_path (Img encrypted_image) of
                  Inl e \<Rightarrow> (Inl e, fs)
                | Inr fs1 \<Rightarrow>
                    (case key_matrix self of
                       None \<Rightarrow> (Inl AttributeError, fs1)
                     | Some K \<Rightarrow>
                         let metadata = \<lparr>j_key_matrix = Some K,
                                         j_block_size = Some (block_size self),
                                         j_original_shape = Some original_shape,
                                         j_image_mode = Some (mode img)\<rparr> in
                         (case write_file fs1 (metadata_path_of output_path) (Json metadata) of
                            Inl e \<Rightarrow> (Inl e, fs1)
                          | Inr fs2 \<Rightarrow> (Inr ''Image encrypted successfully!'', fs2))))))"

text \<open>
  \<open>decrypt_image\<close>. The shape and mode come from the metadata file when
  \<open>os.path.exists(metadata_path)\<close>, and from the encrypted image itself otherwise.
  As in \<open>encrypt_image\<close>, \<open>Image.fromarray\<close> is taken to accept the array: its check
  of the mode against the array is not modelled.
\<close>

definition load_shape_and_mode ::
  "filesystem \<Rightarrow> string \<Rightarrow> string \<Rightarrow> error + nat list \<times> string" where
  "load_shape_and_mode fs image_path metadata_path =
     (case files fs metadata_path of
        Some (Json metadata) \<Rightarrow>
          (case j_original_shape metadata of
             None \<Rightarrow> Inl KeyError
           | Some original_shape \<Rightarrow>
               (case j_image_mode metadata of
                  None \<Rightarrow> Inl KeyError
                | Some image_mode \<Rightarrow> Inr (original_shape, image_mode)))
      | Some (Img _) \<Rightarrow> Inl (ValueError ''not a JSON document'')
      | None \<Rightarrow>
          (case open_image fs image_path of
             Inl e \<Rightarrow> Inl e
           | Inr img \<Rightarrow> Inr (shape img, mode img)))"

definition decrypt_with ::
  "hill_cipher \<Rightarrow> filesystem \<Rightarrow> string \<Rightarrow> string \<Rightarrow> nat list \<Rightarrow> string
     \<Rightarrow> (error + string) \<times> filesystem" where
  "decrypt_with self fs image_path output_path original_shape image_mode =
     (case open_image fs image_path of
        Inl e \<Rightarrow> (Inl e, fs)
      | Inr img \<Rightarrow>
          (case transform_array (decrypt_block self) self original_shape img of
             Inl e \<Rightarrow> (Inl e, fs)
           | Inr decrypted_array \<Rightarrow>
               let decrypted_image = \<lparr>shape = original_shape, mode = image_mode,
                                      pixels = map (\<lambda>x. x mod 256) decrypted_array\<rparr> in
               (case write_file fs output_path (Img decrypted_image) of
                  Inl e \<Rightarrow> (Inl e, fs)
                | Inr fs1 \<Rightarrow> (Inr ''Image decrypted successfully!'', fs1))))"

definition decrypt_image ::
  "hill_cipher \<Rightarrow> filesystem \<Rightarrow> string \<Rightarrow> string \<Rightarrow> string option
     \<Rightarrow> (error + string) \<times> filesystem" where
  "decrypt_image self fs image_path output_path metadata_path =
     (let metadata_path = (case metadata_path of
                             None \<Rightarrow> metadata_path_of image_path
                           | Some p \<Rightarrow> p)
      in case load_shape_and_mode fs image_path metadata_path of
           Inl e \<Rightarrow> (Inl e, fs)
         | Inr (original_shape, image_mode) \<Rightarrow>
             decrypt_with self fs image_path output_path original_shape image_mode)"

section \<open>Matrix product\<close>

text \<open>
  The product of two arrays, the identity matrix and the entrywise remainder: the terms
  in which ``the inverse times the key is the identity modulo 256'' is stated.
\<close>

definition mat_mul :: "matrix \<Rightarrow> matrix \<Rightarrow> matrix" where
  "mat_mul A B = map (\<lambda>row. map (\<lambda>k. \<Sum>i\<leftarrow>[0..<length B]. row ! i * B ! i ! k) [0..<ncols B]) A"

definition identity_matrix :: "nat \<Rightarrow> matrix" where
  "identity_matrix n = map (\<lambda>j. map (\<lambda>k. if j = k then 1 else 0) [0..<n]) [0..<n]"

definition mat_mod :: "int \<Rightarrow> matrix \<Rightarrow> matrix" where
  "mat_mod m A = map (map (\<lambda>x. x mod m)) A"

section \<open>Example instances\<close>

text \<open>
  The key \<open>[[3, 2], [5, 7]]\<close> (determinant 11) with its inverse modulo 256, a key file
  without a block size, a grayscale image of five pixels and an encrypted image that has
  no metadata file beside it.
\<close>

definition cipher_3257 :: hill_cipher where
  "cipher_3257 = \<lparr>block_size = 2, key_matrix = Some [[3, 2], [5, 7]],
                  inverse_key_matrix = Some [[117, 186], [209, 233]]\<rparr>"

definition key_file_3x3 :: filesystem where
  "key_file_3x3 =
     \<lparr>files = [''key.json'' \<mapsto> Json \<lparr>j_key_matrix = Some [[1, 2, 3], [0, 1, 4], [5, 6, 0]],
                                       j_block_size = None, j_original_shape = None,
                                       j_image_mode = None\<rparr>],
      read_only = {}\<rparr>"

definition gray_1x5 :: filesystem where
  "gray_1x5 =
     \<lparr>files = [''in.png'' \<mapsto> Img \<lparr>shape = [1, 5], mode = ''L'', pixels = [1, 2, 3, 4, 5]\<rparr>],
      read_only = {}\<rparr>"

definition only_ciphertext :: filesystem where
  "only_ciphertext =
     \<lparr>files = [''out.png'' \<mapsto> Img \<lparr>shape = [1, 4], mode = ''L'', pixels = [7, 19, 17, 43]\<rparr>],
      read_only = {}\<rparr>"

definition with_metadata :: filesystem where
  "with_metadata =
     \<lparr>files = [''out.png'' \<mapsto> Img \<lparr>shape = [1, 4], mode = ''L'', pixels = [7, 19, 17, 43]\<rparr>,
               ''out_metadata.json'' \<mapsto> Json \<lparr>j_key_matrix = Some [[3, 2], [5, 7]],
                                                j_block_size = Some 2,
                                                j_original_shape = Some [2, 2],
                                                j_image_mode = Some ''L''\<rparr>],
      read_only = {}\<rparr>"

text \<open>
  Keys whose determinants leave the range in which a float64 holds every integer: a
  \<open>2 \<times> 2\<close> key with the odd determinant \<open>2^54 + 2^28 + 1\<close>, the \<open>7 \<times> 7\<close> key
  \<open>255 * I\<close> with entries in \<open>[0, 255]\<close> and the odd determinant \<open>255^7\<close>, and a
  \<open>3 \<times> 3\<close> key of determinant 1 one of whose minors has the determinant \<open>2^54 + 2^28 + 1\<close>.
\<close>

definition key_big_2x2 :: matrix where
  "key_big_2x2 = [[134217729, 0], [0, 134217729]]"

definition key_255_I7 :: matrix where
  "key_255_I7 = map (\<lambda>r. map (\<lambda>c. if r = c then 255 else 0) [0..<7]) [0..<7]"

definition key_x3 :: matrix where
  "key_x3 = [[1, 0, 0], [134217729, 1, 0], [0, 134217729, 1]]"

text \<open>
  A rounded determinant for the last key: exact everywhere except at the minor
  \<open>[[x, 1], [0, x]]\<close>, where it is \<open>2^54 + 2^28\<close>, the float64 nearest to \<open>x^2\<close>.
\<close>

definition det_round_x3 :: "matrix \<Rightarrow> int" where
  "det_round_x3 M = (if M = [[134217729, 1], [0, 134217729]] then 18014398777917440 else det M)"

section \<open>Properties of padding\<close>

text \<open>
  C7: for every sequence \<open>s\<close> and block size \<open>N \<ge> 1\<close>, \<open>pad_data\<close> returns a sequence of
  length \<open>len(s) + (N - len(s) % N) % N\<close> whose first \<open>len(s)\<close> elements are \<open>s\<close>, whose
  remaining elements are all zero, and whose length is a multiple of \<open>N\<close>.
\<close>

theorem pad_data_appends_zeros:
  assumes "1 \<le> block_size self"
  shows "\<exists>r. pad_data self s = Inr r
           \<and> length r = length s + (block_size self - length s mod block_size self) mod block_size self
           \<and> take (length s) r = s
           \<and> drop (length s) r = replicate (length r - length s) 0
           \<and> block_size self dvd length r"
proof -
  let ?N = "block_size self"
  have N: "0 < ?N" using assms by simp
  show ?thesis
  proof (cases "length s mod ?N = 0")
    case True
    then show ?thesis using N by (simp add: pad_data_def mod_eq_0_iff_dvd)
  next
    case False
    have lt: "length s mod ?N < ?N" using N by simp
    have pos: "0 < length s mod ?N" using False by simp
    have m: "(?N - length s mod ?N) mod ?N = ?N - length s mod ?N"
      using lt pos by simp
    have "(length s + (?N - length s mod ?N)) mod ?N
            = (length s mod ?N + (?N - length s mod ?N)) mod ?N"
      by (rule mod_add_left_eq [symmetric])
    also have "\<dots> = 0" using lt by simp
    finally have d: "?N dvd length s + (?N - length s mod ?N)"
      by (simp add: mod_eq_0_iff_dvd)
    show ?thesis using False N m d by (simp add: pad_data_def Let_def)
  qed
qed

theorem pad_data_appends_zeros_witness:
  "pad_data \<lparr>block_size = 2, key_matrix = None, inverse_key_matrix = None\<rparr> [7, 8, 9, 10, 11]
     = Inr [7, 8, 9, 10, 11, 0]
   \<and> (\<exists>r. pad_data \<lparr>block_size = 2, key_matrix = None, inverse_key_matrix = None\<rparr> [7, 8, 9, 10, 11] = Inr r
        \<and> length r = 6 \<and> take 5 r = [7, 8, 9, 10, 11] \<and> drop 5 r = [0] \<and> 2 dvd length r)"
  using pad_data_appends_zeros
    [of "\<lparr>block_size = 2, key_matrix = None, inverse_key_matrix = None\<rparr>" "[7, 8, 9, 10, 11]"]
  by (simp add: pad_data_def)

section \<open>The determinant and its cofactors\<close>

text \<open>
  Expansion along any column, vanishing for two equal columns, and the identity of the
  adjugate: the cofactors of column \<open>j\<close> against the entries of column \<open>k\<close> sum to the
  determinant when \<open>j = k\<close> and to 0 otherwise.
\<close>

lemma skip_0: "skip 0 c = Suc c" by (simp add: skip_def)

lemma skip_skip: "a \<le> b \<Longrightarrow> skip a (skip b r) = skip (Suc b) (skip a r)"
  by (auto simp: skip_def)

lemma skip_neq: "skip i r \<noteq> i" by (simp add: skip_def)

lemma skip_unskip: "q \<noteq> i \<Longrightarrow> skip i (unskip i q) = q"
  by (auto simp: skip_def unskip_def)

lemma unskip_skip: "unskip i (skip i r) = r"
  by (auto simp: skip_def unskip_def)

lemma skip_le: "r \<le> n \<Longrightarrow> skip i r \<le> Suc n" by (simp add: skip_def)

lemma unskip_le: "q \<le> Suc n \<Longrightarrow> q \<noteq> i \<Longrightarrow> i \<le> Suc n \<Longrightarrow> unskip i q \<le> n"
  by (auto simp: unskip_def)

lemma detf_Suc: "detf (Suc n) A = (\<Sum>i\<le>n. (- 1) ^ i * A i 0 * detf n (minorf A i 0))"
proof -
  have "{..n} = set [0..<Suc n]" by auto
  then show ?thesis
    unfolding detf.simps minorf_def skip_0
    by (simp only: interv_sum_list_conv_sum_set_nat)
qed

lemma sum_skip:
  assumes "i \<le> Suc n"
  shows "(\<Sum>k\<le>n. f (skip i k)) = (\<Sum>q\<le>Suc n. if q = i then 0 else f q)"
proof -
  have "(\<Sum>k\<le>n. f (skip i k)) = (\<Sum>q\<in>{..Suc n} - {i}. f q)"
    by (rule sum.reindex_bij_witness [of _ "unskip i" "skip i"])
       (use assms in \<open>auto simp: skip_unskip unskip_skip skip_neq skip_le unskip_le\<close>)
  also have "\<dots> = (\<Sum>q\<le>Suc n. if q = i then 0 else f q)"
    by (rule sum.mono_neutral_cong_left) auto
  finally show ?thesis .
qed


lemma skip_rows: "p \<noteq> q \<Longrightarrow> skip p (skip (unskip p q) r) = skip q (skip (unskip q p) r)"
  by (auto simp: skip_def unskip_def)

lemma double_minor:
  assumes "p \<noteq> q"
  shows "minorf (minorf A p 0) (unskip p q) j' = minorf (minorf A q (Suc j')) (unskip q p) 0"
proof -
  have c: "skip 0 (skip j' c) = skip (Suc j') (skip 0 c)" for c
    by (rule skip_skip) simp
  show ?thesis
    unfolding minorf_def by (intro ext) (simp only: skip_rows [OF assms] c)
qed

lemma double_sign:
  assumes "p \<noteq> q"
  shows "(- 1 :: int) ^ (p + unskip p q + j') = (- 1) ^ (q + Suc j' + unskip q p)"
proof (cases "p < q")
  case True
  then obtain q' where q: "q = Suc q'" by (cases q) auto
  show ?thesis using True by (simp add: unskip_def q ac_simps)
next
  case False
  then have "q < p" using assms by simp
  then obtain p' where p: "p = Suc p'" by (cases p) auto
  show ?thesis using \<open>q < p\<close> by (simp add: unskip_def p ac_simps)
qed

lemma detf_col:
  "j \<le> n \<Longrightarrow> detf (Suc n) A = (\<Sum>i\<le>n. (- 1) ^ (i + j) * A i j * detf n (minorf A i j))"
proof (induction n arbitrary: A j)
  case 0
  then show ?case by (simp add: detf_Suc)
next
  case (Suc m)
  show ?case
  proof (cases j)
    case 0
    then show ?thesis by (simp add: detf_Suc)
  next
    case (Suc j')
    then have j': "j' \<le> m" using Suc.prems by simp
    define G where "G p q = (- 1) ^ (p + unskip p q + j') * A p 0 * A q j
                       * detf m (minorf (minorf A p 0) (unskip p q) j')" for p q
    define G' where "G' q p = (- 1) ^ (q + j + unskip q p) * A q j * A p 0
                       * detf m (minorf (minorf A q j) (unskip q p) 0)" for p q
    have eq: "G p q = G' q p" if "p \<noteq> q" for p q
      unfolding G_def G'_def Suc double_minor [OF that] double_sign [OF that] by simp
    have L: "(- 1) ^ p * A p 0 * detf (Suc m) (minorf A p 0)
               = (\<Sum>q\<le>Suc m. if q = p then 0 else G p q)" if "p \<le> Suc m" for p
    proof -
      have "detf (Suc m) (minorf A p 0)
              = (\<Sum>k\<le>m. (- 1) ^ (k + j') * minorf A p 0 k j' * detf m (minorf (minorf A p 0) k j'))"
        by (rule Suc.IH [OF j'])
      then have "(- 1) ^ p * A p 0 * detf (Suc m) (minorf A p 0)
              = (\<Sum>k\<le>m. G p (skip p k))"
        by (simp add: G_def unskip_skip minorf_def skip_0 Suc sum_distrib_left power_add algebra_simps)
      also have "\<dots> = (\<Sum>q\<le>Suc m. if q = p then 0 else G p q)"
        by (rule sum_skip [OF that])
      finally show ?thesis .
    qed
    have R: "(- 1) ^ (q + j) * A q j * detf (Suc m) (minorf A q j)
               = (\<Sum>p\<le>Suc m. if p = q then 0 else G' q p)" if "q \<le> Suc m" for q
    proof -
      have "skip j 0 = 0" by (simp add: skip_def Suc)
      then have "(- 1) ^ (q + j) * A q j * detf (Suc m) (minorf A q j)
              = (\<Sum>k\<le>m. G' q (skip q k))"
        by (simp add: detf_Suc G'_def unskip_skip minorf_def sum_distrib_left power_add algebra_simps)
      also have "\<dots> = (\<Sum>p\<le>Suc m. if p = q then 0 else G' q p)"
        by (rule sum_skip [OF that])
      finally show ?thesis .
    qed
    have "detf (Suc (Suc m)) A = (\<Sum>p\<le>Suc m. \<Sum>q\<le>Suc m. if q = p then 0 else G p q)"
      unfolding detf_Suc [of "Suc m"] by (rule sum.cong) (simp_all add: L)
    also have "\<dots> = (\<Sum>p\<le>Suc m. \<Sum>q\<le>Suc m. if p = q then 0 else G' q p)"
      by (intro sum.cong refl) (auto simp: eq)
    also have "\<dots> = (\<Sum>q\<le>Suc m. \<Sum>p\<le>Suc m. if p = q then 0 else G' q p)"
      by (rule sum.swap)
    also have "\<dots> = (\<Sum>q\<le>Suc m. (- 1) ^ (q + j) * A q j * detf (Suc m) (minorf A q j))"
      by (rule sum.cong) (simp_all add: R)
    finally show ?thesis .
  qed
qed


lemma detf_2: "detf 2 A = A 0 0 * A 1 1 - A 1 0 * A 0 1"
proof -
  have "detf (Suc (Suc 0)) A = A 0 0 * A 1 1 - A 1 0 * A 0 1"
    by (simp add: detf_Suc minorf_def skip_def)
  then show ?thesis by (simp add: numeral_2_eq_2)
qed

lemma detf_equal_cols:
  "j < k \<Longrightarrow> k < n \<Longrightarrow> (\<And>r. A r j = A r k) \<Longrightarrow> detf n A = 0"
proof (induction n arbitrary: A j k)
  case 0
  then show ?case by simp
next
  case (Suc n')
  show ?case
  proof (cases "n' = 1")
    case True
    then have "j = 0" "k = 1" using Suc.prems by auto
    then have "A r 0 = A r 1" for r using Suc.prems(3) [of r] by simp
    then have "detf 2 A = 0" by (simp add: detf_2)
    then show ?thesis using True by (simp add: numeral_2_eq_2)
  next
    case False
    then have big: "2 \<le> n'" using Suc.prems by auto
    obtain l where l: "l \<le> n'" "l \<noteq> j" "l \<noteq> k"
    proof -
      have "\<exists>l. l \<le> 2 \<and> l \<noteq> j \<and> l \<noteq> k"
      proof (cases "j = 0")
        case True
        show ?thesis
        proof (cases "k = 1")
          case True
          then show ?thesis using \<open>j = 0\<close> by (intro exI [of _ 2]) simp
        next
          case False
          then show ?thesis using \<open>j = 0\<close> by (intro exI [of _ 1]) simp
        qed
      next
        case False
        then show ?thesis using \<open>j < k\<close> by (intro exI [of _ 0]) simp
      qed
      then obtain l where "l \<le> 2" "l \<noteq> j" "l \<noteq> k" by blast
      then show ?thesis using that [of l] big by simp
    qed
    have z: "detf n' (minorf A i l) = 0" for i
    proof (rule Suc.IH [of "unskip l j" "unskip l k"])
      show "unskip l j < unskip l k" using \<open>j < k\<close> l by (auto simp: unskip_def)
      show "unskip l k < n'" using \<open>k < Suc n'\<close> l by (auto simp: unskip_def)
      show "minorf A i l r (unskip l j) = minorf A i l r (unskip l k)" for r
        using l Suc.prems(3) by (simp add: minorf_def skip_unskip)
    qed
    show ?thesis by (simp add: detf_col [OF l(1)] z)
  qed
qed

lemma detf_equal_cols': 
  assumes "j \<noteq> k" "j < n" "k < n" "\<And>r. A r j = A r k"
  shows "detf n A = 0"
proof (cases "j < k")
  case True
  then show ?thesis using assms detf_equal_cols [of j k n A] by simp
next
  case False
  then have "k < j" using assms by simp
  then show ?thesis using assms detf_equal_cols [of k j n A] by simp
qed

lemma adjugate_identity:
  assumes "j \<le> n" "k \<le> n"
  shows "(\<Sum>i\<le>n. (- 1) ^ (i + j) * A i k * detf n (minorf A i j))
           = (if j = k then detf (Suc n) A else 0)"
proof (cases "j = k")
  case True
  then show ?thesis using detf_col [OF assms(1), of A] by simp
next
  case False
  define B where "B = (\<lambda>r c. if c = j then A r k else A r c)"
  have m: "minorf B i j = minorf A i j" for i
    by (intro ext) (simp add: minorf_def B_def skip_neq)
  have "detf (Suc n) B = 0"
    by (rule detf_equal_cols' [of j k]) (use False assms in \<open>auto simp: B_def\<close>)
  moreover have "detf (Suc n) B = (\<Sum>i\<le>n. (- 1) ^ (i + j) * A i k * detf n (minorf A i j))"
    unfolding detf_col [OF assms(1), of B] m by (simp add: B_def)
  ultimately show ?thesis using False by simp
qed

lemma detf_cong:
  "(\<And>r c. r < n \<Longrightarrow> c < n \<Longrightarrow> A r c = B r c) \<Longrightarrow> detf n A = detf n B"
proof (induction n arbitrary: A B)
  case 0
  then show ?case by simp
next
  case (Suc n)
  have "detf n (minorf A i 0) = detf n (minorf B i 0)" for i
    by (rule Suc.IH) (simp add: minorf_def skip_def Suc.prems)
  moreover have "A i 0 = B i 0" if "i \<le> n" for i using that Suc.prems by simp
  ultimately show ?case by (simp add: detf_Suc)
qed

section \<open>Checking a key when it is set\<close>

lemma gcd_hc_eq: "0 \<le> a \<Longrightarrow> 0 \<le> b \<Longrightarrow> gcd_hc a b = gcd a b"
proof (induction a b rule: gcd_hc.induct)
  case (1 a b)
  show ?case
  proof (cases "b = 0")
    case True
    then show ?thesis using 1 by (simp add: gcd_hc.simps)
  next
    case False
    then have "gcd_hc a b = gcd_hc b (a mod b)" by (subst gcd_hc.simps) simp
    also have "\<dots> = gcd b (a mod b)" using 1 False by simp
    also have "\<dots> = gcd a b" by (metis gcd_red_int)
    finally show ?thesis .
  qed
qed

lemma gcd_hc_256: "gcd_hc (d mod 256) 256 = gcd (d mod 256) 256"
  by (rule gcd_hc_eq) simp_all

lemma mod_inverse_cases:
  "mod_inverse (d mod 256) 256 =
     (if gcd (d mod 256) 256 \<noteq> 1 then Inl (ValueError ''Modular inverse does not exist'')
      else Inr (((fst (snd (extended_gcd (d mod 256 mod 256) 256))) mod 256 + 256) mod 256))"
  unfolding mod_inverse_def gcd_hc_256 by (simp split: prod.splits)

lemma matrix_inverse_mod_not_square:
  "\<not> is_square M \<Longrightarrow> matrix_inverse_mod dr M 256 = Inl LinAlgError"
  by (simp add: matrix_inverse_mod_def)

lemma matrix_inverse_mod_singular:
  "is_square M \<Longrightarrow> gcd (dr M mod 256) 256 \<noteq> 1 \<Longrightarrow>
   matrix_inverse_mod dr M 256 = Inl (ValueError ''Modular inverse does not exist'')"
  by (simp add: matrix_inverse_mod_def mod_inverse_cases Let_def)

lemma matrix_inverse_mod_unit:
  "is_square M \<Longrightarrow> gcd (dr M mod 256) 256 = 1 \<Longrightarrow> \<exists>Kinv. matrix_inverse_mod dr M 256 = Inr Kinv"
  by (simp add: matrix_inverse_mod_def mod_inverse_cases Let_def)

lemma inverse_3x3:
  "matrix_inverse_mod det [[1, 2, 3], [0, 1, 4], [5, 6, 0]] 256
     = Inr [[232, 18, 5], [20, 241, 252], [251, 4, 1]]"
  by code_simp

lemma inverse_2412:
  "matrix_inverse_mod det [[2, 4], [1, 2]] 256 = Inl (ValueError ''Modular inverse does not exist'')"
  by code_simp

text \<open>
  The three outcomes of \<open>set_key_matrix\<close>, in terms of the exact determinant, for a
  matrix whose rounded floating-point determinant is exact.
\<close>

lemma set_key_matrix_cases:
  assumes "det_round M = det M"
  shows "(\<not> is_square M \<longrightarrow>
            (\<exists>self'. set_key_matrix det_round self M = (False, Some LinAlgError, self')))
       \<and> (is_square M \<and> gcd (det M mod 256) 256 \<noteq> 1 \<longrightarrow>
            (\<exists>self'. set_key_matrix det_round self M
                = (False, Some (ValueError ''Modular inverse does not exist''), self')))
       \<and> (is_square M \<and> gcd (det M mod 256) 256 = 1 \<longrightarrow>
            (\<exists>Kinv. matrix_inverse_mod det_round M 256 = Inr Kinv
               \<and> set_key_matrix det_round self M
                   = (True, None, self\<lparr>key_matrix := Some M, inverse_key_matrix := Some Kinv\<rparr>)))"
proof (intro conjI impI)
  assume "\<not> is_square M"
  then show "\<exists>self'. set_key_matrix det_round self M = (False, Some LinAlgError, self')"
    by (simp add: set_key_matrix_def matrix_inverse_mod_not_square)
next
  assume "is_square M \<and> gcd (det M mod 256) 256 \<noteq> 1"
  then have "matrix_inverse_mod det_round M 256 = Inl (ValueError ''Modular inverse does not exist'')"
    using assms by (simp add: matrix_inverse_mod_singular)
  then show "\<exists>self'. set_key_matrix det_round self M
                = (False, Some (ValueError ''Modular inverse does not exist''), self')"
    by (simp add: set_key_matrix_def)
next
  assume "is_square M \<and> gcd (det M mod 256) 256 = 1"
  then obtain Kinv where "matrix_inverse_mod det_round M 256 = Inr Kinv"
    using assms matrix_inverse_mod_unit [of M det_round] by auto
  then show "\<exists>Kinv. matrix_inverse_mod det_round M 256 = Inr Kinv
               \<and> set_key_matrix det_round self M
                   = (True, None, self\<lparr>key_matrix := Some M, inverse_key_matrix := Some Kinv\<rparr>)"
    by (simp add: set_key_matrix_def)
qed

text \<open>
  C4 at a failing input: the instance holds the key \<open>[[3, 2], [5, 7]]\<close> and its inverse;
  \<open>set_key_matrix\<close> with the singular matrix \<open>[[2, 4], [1, 2]]\<close> returns False, and the
  instance then holds the rejected matrix beside the inverse of the previous key.
\<close>

theorem set_key_matrix_failure_keeps_rejected_key:
  "set_key_matrix det cipher_3257 [[2, 4], [1, 2]]
   = (False, Some (ValueError ''Modular inverse does not exist''),
      \<lparr>block_size = 2, key_matrix = Some [[2, 4], [1, 2]],
       inverse_key_matrix = Some [[117, 186], [209, 233]]\<rparr>)"
  by (simp add: set_key_matrix_def inverse_2412 cipher_3257_def)

section \<open>Key files\<close>

text \<open>
  C10: a key file that holds a valid key matrix and no block size is loaded successfully,
  and the block size of the instance becomes the default 2, whatever the dimension of the
  matrix.
\<close>

theorem load_key_default_block_size:
  assumes "files fs path = Some (Json key_data)"
    and "j_key_matrix key_data = Some K"
    and "j_block_size key_data = None"
    and "matrix_inverse_mod det_round K 256 = Inr Kinv"
  shows "load_key det_round self fs path
           = (True, self\<lparr>block_size := 2, key_matrix := Some K, inverse_key_matrix := Some Kinv\<rparr>)"
  using assms by (simp add: load_key_def set_key_matrix_def)

theorem load_key_default_block_size_witness:
  "load_key det \<lparr>block_size = 3, key_matrix = None, inverse_key_matrix = None\<rparr> key_file_3x3 ''key.json''
     = (True, \<lparr>block_size = 2, key_matrix = Some [[1, 2, 3], [0, 1, 4], [5, 6, 0]],
               inverse_key_matrix = Some [[232, 18, 5], [20, 241, 252], [251, 4, 1]]\<rparr>)"
  using load_key_default_block_size
      [of key_file_3x3 "''key.json''" _ "[[1, 2, 3], [0, 1, 4], [5, 6, 0]]" det _
          "\<lparr>block_size = 3, key_matrix = None, inverse_key_matrix = None\<rparr>", OF _ _ _ inverse_3x3]
  by (simp add: key_file_3x3_def)

text \<open>
  C9: an instance that holds a valid key \<open>K\<close> (one whose inverse the engine computes) and
  block size \<open>N\<close> saves the key to a writable path; loading that file into a fresh instance
  succeeds and yields the key matrix \<open>K\<close> and the block size \<open>N\<close>.
\<close>

theorem save_then_load_key:
  assumes "key_matrix self = Some K"
    and "matrix_inverse_mod det_round K 256 = Inr Kinv"
    and "path \<notin> read_only fs"
  shows "\<exists>fs'. save_key self fs path = (True, fs')
           \<and> (\<exists>self'. load_key det_round new_cipher fs' path = (True, self')
                 \<and> key_matrix self' = Some K \<and> block_size self' = block_size self)"
  using assms
  by (simp add: save_key_def write_file_def load_key_def set_key_matrix_def new_cipher_def)

theorem save_then_load_key_witness:
  "\<exists>fs'. save_key \<lparr>block_size = 3, key_matrix = Some [[1, 2, 3], [0, 1, 4], [5, 6, 0]],
                    inverse_key_matrix = Some [[232, 18, 5], [20, 241, 252], [251, 4, 1]]\<rparr>
                  \<lparr>files = Map.empty, read_only = {}\<rparr> ''key.json'' = (True, fs')
        \<and> (\<exists>self'. load_key det new_cipher fs' ''key.json'' = (True, self')
              \<and> key_matrix self' = Some [[1, 2, 3], [0, 1, 4], [5, 6, 0]] \<and> block_size self' = 3)"
  using save_then_load_key
      [of "\<lparr>block_size = 3, key_matrix = Some [[1, 2, 3], [0, 1, 4], [5, 6, 0]],
            inverse_key_matrix = Some [[232, 18, 5], [20, 241, 252], [251, 4, 1]]\<rparr>"
          "[[1, 2, 3], [0, 1, 4], [5, 6, 0]]" det _ "''key.json''"
          "\<lparr>files = Map.empty, read_only = {}\<rparr>", OF _ inverse_3x3]
  by simp

section \<open>Images\<close>

text \<open>
  C1 at a failing input: a grayscale image of five pixels \<open>[1, 2, 3, 4, 5]\<close> is encrypted
  with the key \<open>[[3, 2], [5, 7]]\<close> and block size 2, and the result is decrypted by the
  same instance with the metadata written beside it. The padded last block \<open>(5, 0)\<close> is
  encrypted to \<open>(15, 25)\<close>, the ciphertext is cut to five values, and decryption pads it
  with a zero again: the last pixel comes back as 219, not 5.
\<close>

theorem encrypt_then_decrypt_unaligned:
  "files gray_1x5 ''in.png'' = Some (Img \<lparr>shape = [1, 5], mode = ''L'', pixels = [1, 2, 3, 4, 5]\<rparr>)
   \<and> fst (encrypt_image cipher_3257 gray_1x5 ''in.png'' ''out.png'')
       = Inr ''Image encrypted successfully!''
   \<and> files (snd (encrypt_image cipher_3257 gray_1x5 ''in.png'' ''out.png'')) ''out.png''
       = Some (Img \<lparr>shape = [1, 5], mode = ''L'', pixels = [7, 19, 17, 43, 15]\<rparr>)
   \<and> fst (decrypt_image cipher_3257 (snd (encrypt_image cipher_3257 gray_1x5 ''in.png'' ''out.png''))
            ''out.png'' ''dec.png'' None)
       = Inr ''Image decrypted successfully!''
   \<and> files (snd (decrypt_image cipher_3257
                    (snd (encrypt_image cipher_3257 gray_1x5 ''in.png'' ''out.png''))
                    ''out.png'' ''dec.png'' None)) ''dec.png''
       = Some (Img \<lparr>shape = [1, 5], mode = ''L'', pixels = [1, 2, 3, 4, 219]\<rparr>)"
  by code_simp

text \<open>
  C6, as stated, fails: with no metadata file beside the encrypted image, \<open>decrypt_image\<close>
  does not fail but takes the shape and mode of the encrypted image and reports success.
\<close>

theorem decrypt_image_without_metadata_succeeds:
  "files only_ciphertext (metadata_path_of ''out.png'') = None
   \<and> fst (decrypt_image cipher_3257 only_ciphertext ''out.png'' ''dec.png'' None)
       = Inr ''Image decrypted successfully!''"
  by code_simp

text \<open>
  C6, amended: when the metadata file exists and records a shape and a mode,
  \<open>decrypt_image\<close> reconstructs with the recorded shape and mode; when no metadata file
  exists, it reconstructs with the shape and mode of the encrypted image itself. A
  successful call writes an image of exactly that shape and mode.
\<close>

theorem decrypt_image_shape_source:
  "(files fs (metadata_path_of image_path) = Some (Json metadata)
      \<and> j_original_shape metadata = Some s \<and> j_image_mode metadata = Some m
    \<longrightarrow> decrypt_image self fs image_path output_path None
          = decrypt_with self fs image_path output_path s m)
   \<and> (files fs (metadata_path_of image_path) = None \<and> files fs image_path = Some (Img c)
    \<longrightarrow> decrypt_image self fs image_path output_path None
          = decrypt_with self fs image_path output_path (shape c) (mode c))
   \<and> (decrypt_with self fs image_path output_path s m = (Inr msg, fs')
    \<longrightarrow> (\<exists>d. files fs' output_path = Some (Img d) \<and> shape d = s \<and> mode d = m))"
  by (auto simp: decrypt_image_def load_shape_and_mode_def open_image_def decrypt_with_def
        write_file_def Let_def split: sum.splits option.splits file_content.splits if_splits)

theorem decrypt_image_shape_source_witness:
  "decrypt_image cipher_3257 with_metadata ''out.png'' ''dec.png'' None
     = decrypt_with cipher_3257 with_metadata ''out.png'' ''dec.png'' [2, 2] ''L''
   \<and> decrypt_image cipher_3257 only_ciphertext ''out.png'' ''dec.png'' None
     = decrypt_with cipher_3257 only_ciphertext ''out.png'' ''dec.png'' [1, 4] ''L''
   \<and> (\<exists>d. files (snd (decrypt_with cipher_3257 with_metadata ''out.png'' ''dec.png'' [2, 2] ''L''))
              ''dec.png'' = Some (Img d) \<and> shape d = [2, 2] \<and> mode d = ''L'')"
proof -
  let ?md = "\<lparr>j_key_matrix = Some [[3, 2], [5, 7]], j_block_size = Some 2,
              j_original_shape = Some [2, 2], j_image_mode = Some ''L''\<rparr>"
  let ?c = "\<lparr>shape = [1, 4], mode = ''L'', pixels = [7, 19, 17, 43]\<rparr>"
  have m: "files with_metadata (metadata_path_of ''out.png'') = Some (Json ?md)"
    by code_simp
  have n: "files only_ciphertext (metadata_path_of ''out.png'') = None"
          "files only_ciphertext ''out.png'' = Some (Img ?c)"
    by code_simp+
  have ok: "fst (decrypt_with cipher_3257 with_metadata ''out.png'' ''dec.png'' [2, 2] ''L'')
              = Inr ''Image decrypted successfully!''"
    by code_simp
  have r: "decrypt_with cipher_3257 with_metadata ''out.png'' ''dec.png'' [2, 2] ''L''
             = (Inr ''Image decrypted successfully!'',
                snd (decrypt_with cipher_3257 with_metadata ''out.png'' ''dec.png'' [2, 2] ''L''))"
    using ok by (metis prod.collapse)
  have 1: "decrypt_image cipher_3257 with_metadata ''out.png'' ''dec.png'' None
     = decrypt_with cipher_3257 with_metadata ''out.png'' ''dec.png'' [2, 2] ''L''"
    using decrypt_image_shape_source
      [of with_metadata "''out.png''" ?md "[2, 2]" "''L''" cipher_3257 "''dec.png''"] m
    by simp
  have 2: "decrypt_image cipher_3257 only_ciphertext ''out.png'' ''dec.png'' None
     = decrypt_with cipher_3257 only_ciphertext ''out.png'' ''dec.png'' [1, 4] ''L''"
    using decrypt_image_shape_source
      [of only_ciphertext "''out.png''" _ _ _ cipher_3257 "''dec.png''" ?c] n
    by simp
  have 3: "\<exists>d. files (snd (decrypt_with cipher_3257 with_metadata ''out.png'' ''dec.png'' [2, 2] ''L''))
              ''dec.png'' = Some (Img d) \<and> shape d = [2, 2] \<and> mode d = ''L''"
    using decrypt_image_shape_source
      [of with_metadata "''out.png''" _ "[2, 2]" "''L''" cipher_3257 "''dec.png''" _
          "''Image decrypted successfully!''"
          "snd (decrypt_with cipher_3257 with_metadata ''out.png'' ''dec.png'' [2, 2] ''L'')"] r
    by blast
  from 1 2 3 show ?thesis by blast
qed

section \<open>The modular inverse of a matrix\<close>

lemma is_square_iff: "is_square M \<longleftrightarrow> (\<forall>row\<in>set M. length row = length M)"
  by (simp add: is_square_def list_all_iff)

lemma is_square_nth: "is_square M \<Longrightarrow> i < length M \<Longrightarrow> length (M ! i) = length M"
  by (simp add: is_square_iff)

lemma ncols_square: "is_square M \<Longrightarrow> ncols M = length M"
  by (cases M) (simp_all add: ncols_def is_square_iff)

lemma length_np_delete: "i < length xs \<Longrightarrow> length (np_delete i xs) = length xs - 1"
  by (simp add: np_delete_def)

lemma np_delete_nth:
  "i < length xs \<Longrightarrow> r < length xs - 1 \<Longrightarrow> np_delete i xs ! r = xs ! skip i r"
  by (auto simp: np_delete_def skip_def nth_append min_def)

lemma minor_nth:
  assumes "is_square M" "i < length M" "j < length M" "r < length M - 1" "c < length M - 1"
  shows "minor M i j ! r ! c = M ! skip i r ! skip j c"
proof -
  have s: "skip i r < length M" using assms by (auto simp: skip_def)
  have "minor M i j ! r = np_delete j (np_delete i M ! r)"
    using assms by (simp add: minor_def length_np_delete)
  also have "np_delete i M ! r = M ! skip i r"
    using assms by (simp add: np_delete_nth)
  finally show ?thesis
    using assms s by (simp add: np_delete_nth is_square_nth)
qed

lemma det_minor:
  assumes "is_square M" "i < length M" "j < length M"
  shows "det (minor M i j) = detf (length M - 1) (minorf (\<lambda>r c. M ! r ! c) i j)"
proof -
  have "length (minor M i j) = length M - 1"
    using assms by (simp add: minor_def length_np_delete)
  then show ?thesis
    unfolding det_def using assms
    by (auto intro!: detf_cong simp: minor_nth minorf_def)
qed

lemma extended_gcd_bezout: "extended_gcd a b = (g, x, y) \<Longrightarrow> a * x + b * y = g"
proof (induction a b arbitrary: g x y rule: extended_gcd.induct)
  case (1 a b)
  show ?case
  proof (cases "a = 0")
    case True
    then show ?thesis using "1.prems" by (simp add: extended_gcd.simps)
  next
    case False
    obtain g1 x1 y1 where r: "extended_gcd (b mod a) a = (g1, x1, y1)"
      by (cases "extended_gcd (b mod a) a") auto
    have ih: "(b mod a) * x1 + a * y1 = g1" using "1.IH" [OF False r] .
    have "extended_gcd a b = (g1, y1 - (b div a) * x1, x1)"
      using False r by (subst extended_gcd.simps) simp
    then have e: "g = g1" "x = y1 - (b div a) * x1" "y = x1" using "1.prems" by simp_all
    have m: "b mod a = b - a * (b div a)" by (simp add: minus_mult_div_eq_mod)
    have "a * (y1 - (b div a) * x1) + b * x1 = (b - a * (b div a)) * x1 + a * y1"
      by (simp add: algebra_simps)
    then show ?thesis using e ih unfolding m by simp
  qed
qed

lemma extended_gcd_fst: "0 \<le> a \<Longrightarrow> 0 \<le> b \<Longrightarrow> fst (extended_gcd a b) = gcd a b"
proof (induction a b rule: extended_gcd.induct)
  case (1 a b)
  show ?case
  proof (cases "a = 0")
    case True
    then show ?thesis using 1 by (simp add: extended_gcd.simps)
  next
    case False
    then have "0 < a" using 1 by simp
    then have "fst (extended_gcd (b mod a) a) = gcd (b mod a) a"
      using 1 False by simp
    moreover have "fst (extended_gcd a b) = fst (extended_gcd (b mod a) a)"
      using False by (subst extended_gcd.simps) (simp split: prod.splits)
    moreover have "gcd (b mod a) a = gcd a b"
      by (metis gcd.commute gcd_red_int)
    ultimately show ?thesis by simp
  qed
qed

lemma mod_inverse_256:
  assumes "gcd (d mod 256) 256 = 1"
  shows "\<exists>r. mod_inverse (d mod 256) 256 = Inr r \<and> 0 \<le> r \<and> r < 256 \<and> (r * d) mod 256 = 1"
proof -
  obtain g x y where e: "extended_gcd (d mod 256 mod 256) 256 = (g, x, y)"
    by (cases "extended_gcd (d mod 256 mod 256) 256") auto
  have "g = gcd (d mod 256) 256"
    using extended_gcd_fst [of "d mod 256" 256] e by simp
  then have g: "g = 1" using assms by simp
  have b: "(d mod 256) * x + 256 * y = 1"
    using extended_gcd_bezout [OF e] g by simp
  have "((d mod 256) * x + 256 * y) mod 256 = (d * x) mod 256"
    by (simp add: mod_mult_left_eq)
  then have dx: "(d * x) mod 256 = 1" using b by simp
  let ?r = "(x mod 256 + 256) mod 256"
  have r: "?r = x mod 256" by simp
  have "(?r * d) mod 256 = (x * d) mod 256" unfolding r by (simp add: mod_mult_left_eq)
  then have "(?r * d) mod 256 = 1" using dx by (simp add: mult.commute)
  moreover have "mod_inverse (d mod 256) 256 = Inr ?r"
    using assms e by (simp add: mod_inverse_cases)
  ultimately show ?thesis by simp
qed

lemma mod_sum_cong:
  fixes f g :: "nat \<Rightarrow> int"
  assumes "\<And>i. i \<in> S \<Longrightarrow> f i mod m = g i mod m"
  shows "sum f S mod m = sum g S mod m"
proof -
  have "sum f S mod m = (\<Sum>i\<in>S. f i mod m) mod m" by (simp add: mod_sum_eq)
  also have "\<dots> = (\<Sum>i\<in>S. g i mod m) mod m" using assms by simp
  also have "\<dots> = sum g S mod m" by (simp add: mod_sum_eq)
  finally show ?thesis .
qed

lemma square_2:
  assumes "is_square K" "length K = 2"
  shows "\<exists>a b c d. K = [[a, b], [c, d]]"
proof -
  obtain r0 r1 where K: "K = [r0, r1]"
    using assms(2) by (cases K; cases "tl K"; cases "tl (tl K)") auto
  have "length r0 = 2" "length r1 = 2" using assms by (simp_all add: is_square_iff K)
  then obtain a b c d where "r0 = [a, b]" "r1 = [c, d]"
    by (cases r0; cases "tl r0"; cases "tl (tl r0)"; cases r1; cases "tl r1"; cases "tl (tl r1)") auto
  then show ?thesis using K by simp
qed

lemma det_1x1: "det [[x]] = x"
  by (simp add: det_def detf_Suc)

lemma adjugate2_nth:
  assumes "is_square K" "length K = 2" "i < 2" "j < 2"
  shows "adjugate2 K ! j ! i = (- 1) ^ (i + j) * det (minor K i j)"
proof -
  obtain a b c d where K: "K = [[a, b], [c, d]]" using square_2 [OF assms(1,2)] by blast
  have m: "minor K 0 0 = [[d]]" "minor K 0 (Suc 0) = [[c]]" "minor K (Suc 0) 0 = [[b]]"
    "minor K (Suc 0) (Suc 0) = [[a]]"
    by (simp_all add: K minor_def np_delete_def)
  have ij: "(i = 0 \<or> i = 1) \<and> (j = 0 \<or> j = 1)" using assms by auto
  have a2: "adjugate2 K = [[d, - b], [- c, a]]" by (simp add: K adjugate2_def)
  from ij show ?thesis
    by (elim conjE disjE) (simp_all add: a2 m det_1x1)
qed

lemma matrix_inverse_mod_form:
  assumes "is_square K" "gcd (det_round K mod 256) 256 = 1"
  shows "\<exists>r. (r * det_round K) mod 256 = 1
           \<and> matrix_inverse_mod det_round K 256
               = Inr (map (map (\<lambda>x. (r * x) mod 256))
                        (if length K = 2 then adjugate2 K else adjugate_cofactor det_round K 256))"
proof -
  obtain r where "mod_inverse (det_round K mod 256) 256 = Inr r" "(r * det_round K) mod 256 = 1"
    using mod_inverse_256 [OF assms(2)] by blast
  then show ?thesis using assms(1)
    by (intro exI [of _ r]) (simp add: matrix_inverse_mod_def)
qed

lemma adjugate_entry:
  assumes sq: "is_square K"
    and ex: "\<And>i j. i < length K \<Longrightarrow> j < length K \<Longrightarrow> det_round (minor K i j) = det (minor K i j)"
    and ij: "i < length K" "j < length K"
  defines "adj \<equiv> (if length K = 2 then adjugate2 K else adjugate_cofactor det_round K 256)"
  shows "length adj = length K"
    and "length (adj ! j) = length K"
    and "(adj ! j ! i) mod 256 = ((- 1) ^ (i + j) * det (minor K i j)) mod 256"
proof -
  show "length adj = length K"
    by (simp add: adj_def adjugate2_def adjugate_cofactor_def ncols_square [OF sq])
  show "length (adj ! j) = length K"
  proof (cases "length K = 2")
    case True
    then have "j = 0 \<or> j = 1" using ij by auto
    then show ?thesis using True by (auto simp: adj_def adjugate2_def)
  next
    case False
    then show ?thesis using ij by (simp add: adj_def adjugate_cofactor_def ncols_square [OF sq])
  qed
  show "(adj ! j ! i) mod 256 = ((- 1) ^ (i + j) * det (minor K i j)) mod 256"
  proof (cases "length K = 2")
    case True
    then show ?thesis using adjugate2_nth [OF sq True, of i j] ij by (simp add: adj_def)
  next
    case False
    then show ?thesis
      using ij ex [OF ij] by (simp add: adj_def adjugate_cofactor_def ncols_square [OF sq])
  qed
qed

lemma mod_mult_cong3:
  fixes a c x r :: int
  assumes "a mod m = c mod m"
  shows "((r * a) mod m * x) mod m = (r * (c * x)) mod m"
proof -
  have "((r * a) mod m * x) mod m = ((r * a) * x) mod m"
    by (simp add: mod_mult_left_eq)
  also have "\<dots> = (a * (r * x)) mod m"
    by (simp add: algebra_simps)
  also have "\<dots> = ((a mod m) * (r * x)) mod m" by (simp add: mod_mult_left_eq)
  also have "\<dots> = (c * (r * x)) mod m" unfolding assms by (simp add: mod_mult_left_eq)
  finally show ?thesis by (simp add: algebra_simps)
qed

lemma cofactor_sum:
  assumes sq: "is_square K" and jk: "j < length K" "k < length K"
  shows "(\<Sum>i<length K. (- 1) ^ (i + j) * det (minor K i j) * (K ! i ! k))
           = (if j = k then det K else 0)"
proof -
  obtain n where n: "length K = Suc n" using jk by (cases "length K") auto
  let ?A = "\<lambda>r c. K ! r ! c"
  have "(\<Sum>i<length K. (- 1) ^ (i + j) * det (minor K i j) * (K ! i ! k))
          = (\<Sum>i\<le>n. (- 1) ^ (i + j) * ?A i k * detf n (minorf ?A i j))"
    unfolding n lessThan_Suc_atMost
    by (rule sum.cong) (use jk n in \<open>simp_all add: det_minor [OF sq]\<close>)
  also have "\<dots> = (if j = k then detf (Suc n) ?A else 0)"
    by (rule adjugate_identity) (use jk n in simp_all)
  finally show ?thesis by (simp add: det_def n)
qed

lemma inverse_times_key_entry:
  assumes sq: "is_square K"
    and unit: "gcd (det K mod 256) 256 = 1"
    and exK: "det_round K = det K"
    and exq: "\<forall>i<length K. \<forall>j<length K. det_round (minor K i j) = det (minor K i j)"
    and inv: "matrix_inverse_mod det_round K 256 = Inr Kinv"
  shows "length Kinv = length K"
    and "j < length K \<Longrightarrow> length (Kinv ! j) = length K"
    and "j < length K \<Longrightarrow> i < length K \<Longrightarrow> 0 \<le> Kinv ! j ! i \<and> Kinv ! j ! i < 256"
    and "j < length K \<Longrightarrow> k < length K \<Longrightarrow>
           (\<Sum>i<length K. Kinv ! j ! i * K ! i ! k) mod 256 = (if j = k then 1 else 0)"
proof -
  have ex: "det_round (minor K i j) = det (minor K i j)" if "i < length K" "j < length K" for i j
    using exq that by simp
  define adj where "adj = (if length K = 2 then adjugate2 K else adjugate_cofactor det_round K 256)"
  obtain r where r: "(r * det K) mod 256 = 1"
    and f: "matrix_inverse_mod det_round K 256 = Inr (map (map (\<lambda>x. (r * x) mod 256)) adj)"
    using matrix_inverse_mod_form [OF sq, of det_round] unit exK unfolding adj_def by auto
  have Kinv: "Kinv = map (map (\<lambda>x. (r * x) mod 256)) adj" using inv f by simp
  have la: "length adj = length K"
    by (simp add: adj_def adjugate2_def adjugate_cofactor_def ncols_square [OF sq])
  have lr: "length (adj ! j) = length K" if "j < length K" for j
    using adjugate_entry(2) [OF sq ex that that] unfolding adj_def by simp
  have en: "(adj ! j ! i) mod 256 = ((- 1) ^ (i + j) * det (minor K i j)) mod 256"
    if "i < length K" "j < length K" for i j
    using adjugate_entry(3) [OF sq ex that] unfolding adj_def by simp
  have nth: "Kinv ! j ! i = (r * (adj ! j ! i)) mod 256" if "i < length K" "j < length K" for i j
    using that la lr by (simp add: Kinv)
  show "length Kinv = length K" by (simp add: Kinv la)
  show "length (Kinv ! j) = length K" if "j < length K"
    using that la lr by (simp add: Kinv)
  show "0 \<le> Kinv ! j ! i \<and> Kinv ! j ! i < 256" if "j < length K" "i < length K"
    using nth [OF that(2) that(1)] by simp
  show "(\<Sum>i<length K. Kinv ! j ! i * K ! i ! k) mod 256 = (if j = k then 1 else 0)"
    if jk: "j < length K" "k < length K"
  proof -
    have "(\<Sum>i<length K. Kinv ! j ! i * K ! i ! k) mod 256
            = (\<Sum>i<length K. r * ((- 1) ^ (i + j) * det (minor K i j) * (K ! i ! k))) mod 256"
    proof (rule mod_sum_cong)
      fix i assume "i \<in> {..<length K}"
      then have i: "i < length K" by simp
      show "(Kinv ! j ! i * K ! i ! k) mod 256
              = (r * ((- 1) ^ (i + j) * det (minor K i j) * (K ! i ! k))) mod 256"
        unfolding nth [OF i jk(1)]
        using mod_mult_cong3 [OF en [OF i jk(1)], of r "K ! i ! k"] by (simp add: mult.assoc)
    qed
    also have "\<dots> = (r * (\<Sum>i<length K. (- 1) ^ (i + j) * det (minor K i j) * (K ! i ! k))) mod 256"
      by (simp add: sum_distrib_left)
    also have "\<dots> = (r * (if j = k then det K else 0)) mod 256"
      by (simp only: cofactor_sum [OF sq jk])
    also have "\<dots> = (if j = k then 1 else 0)" using r by simp
    finally show ?thesis .
  qed
qed

lemma mat_mul_nth:
  "j < length A \<Longrightarrow> k < ncols B \<Longrightarrow>
   mat_mul A B ! j ! k = (\<Sum>i<length B. A ! j ! i * B ! i ! k)"
proof -
  have "{..<length B} = set [0..<length B]" by auto
  then show "j < length A \<Longrightarrow> k < ncols B \<Longrightarrow>
   mat_mul A B ! j ! k = (\<Sum>i<length B. A ! j ! i * B ! i ! k)"
    by (simp add: mat_mul_def interv_sum_list_conv_sum_set_nat)
qed

text \<open>
  When the rounded determinants of \<open>K\<close> and of its minors are the exact determinants,
  and the determinant is a unit modulo 256, \<open>matrix_inverse_mod\<close> returns a matrix with
  entries in \<open>[0, 256)\<close> whose product with \<open>K\<close> is the identity modulo 256.
\<close>

lemma matrix_inverse_mod_exact_determinants:
  assumes "is_square K"
    and "gcd (det K mod 256) 256 = 1"
    and "det_round K = det K"
    and "\<forall>i<length K. \<forall>j<length K. det_round (minor K i j) = det (minor K i j)"
  shows "\<exists>Kinv. matrix_inverse_mod det_round K 256 = Inr Kinv
           \<and> (\<forall>row\<in>set Kinv. \<forall>x\<in>set row. 0 \<le> x \<and> x < 256)
           \<and> mat_mod 256 (mat_mul Kinv K) = identity_matrix (length K)"
proof -
  obtain Kinv where inv: "matrix_inverse_mod det_round K 256 = Inr Kinv"
    using matrix_inverse_mod_unit [OF assms(1), of det_round] assms(2,3) by auto
  note e = inverse_times_key_entry [OF assms(1,2,3,4) inv]
  have range: "\<forall>row\<in>set Kinv. \<forall>x\<in>set row. 0 \<le> x \<and> x < 256"
  proof (intro ballI)
    fix row x assume "row \<in> set Kinv" "x \<in> set row"
    then obtain j where j: "j < length Kinv" "row = Kinv ! j" by (metis in_set_conv_nth)
    then obtain i where i: "i < length row" "x = row ! i" using \<open>x \<in> set row\<close> by (metis in_set_conv_nth)
    have "j < length K" using j e(1) by simp
    moreover have "i < length K" using i j e(2) [OF \<open>j < length K\<close>] by simp
    ultimately show "0 \<le> x \<and> x < 256" using e(3) [of j i] i j by simp
  qed
  have "mat_mod 256 (mat_mul Kinv K) = identity_matrix (length K)"
  proof (rule nth_equalityI)
    show "length (mat_mod 256 (mat_mul Kinv K)) = length (identity_matrix (length K))"
      by (simp add: mat_mod_def mat_mul_def identity_matrix_def e(1))
  next
    fix j assume "j < length (mat_mod 256 (mat_mul Kinv K))"
    then have j: "j < length K" by (simp add: mat_mod_def mat_mul_def e(1))
    show "mat_mod 256 (mat_mul Kinv K) ! j = identity_matrix (length K) ! j"
    proof (rule nth_equalityI)
      show "length (mat_mod 256 (mat_mul Kinv K) ! j) = length (identity_matrix (length K) ! j)"
        using j by (simp add: mat_mod_def mat_mul_def identity_matrix_def e(1) ncols_square [OF assms(1)])
    next
      fix k assume "k < length (mat_mod 256 (mat_mul Kinv K) ! j)"
      then have k: "k < length K"
        using j by (simp add: mat_mod_def mat_mul_def e(1) ncols_square [OF assms(1)])
      have "mat_mod 256 (mat_mul Kinv K) ! j ! k = (mat_mul Kinv K ! j ! k) mod 256"
        using j k by (simp add: mat_mod_def mat_mul_def e(1) ncols_square [OF assms(1)])
      also have "\<dots> = (\<Sum>i<length K. Kinv ! j ! i * K ! i ! k) mod 256"
        using j k by (simp add: mat_mul_nth e(1) ncols_square [OF assms(1)])
      also have "\<dots> = (if j = k then 1 else 0)" by (rule e(4) [OF j k])
      also have "\<dots> = identity_matrix (length K) ! j ! k"
        using j k by (simp add: identity_matrix_def)
      finally show "mat_mod 256 (mat_mul Kinv K) ! j ! k = identity_matrix (length K) ! j ! k" .
    qed
  qed
  with inv range show ?thesis by blast
qed

section \<open>Decrypting an encrypted block\<close>

lemma sum_list_zip_nth:
  fixes xs ys :: "int list"
  shows "length xs = length ys \<Longrightarrow> (\<Sum>(a, x)\<leftarrow>zip xs ys. a * x) = (\<Sum>i<length xs. xs ! i * ys ! i)"
proof (induction xs ys rule: list_induct2)
  case Nil
  then show ?case by simp
next
  case (Cons x xs y ys)
  have "(\<Sum>i<Suc (length ys). (x # xs) ! i * (y # ys) ! i)
          = x * y + (\<Sum>i<length ys. xs ! i * ys ! i)"
    by (subst sum.lessThan_Suc_shift) simp
  then show ?case using Cons by simp
qed

lemma matrix_inverse_mod_Inr:
  assumes "matrix_inverse_mod det_round K 256 = Inr Kinv"
  shows "is_square K" and "gcd (det_round K mod 256) 256 = 1"
proof -
  show "is_square K"
    using assms matrix_inverse_mod_not_square [of K det_round] by auto
  then show "gcd (det_round K mod 256) 256 = 1"
    using assms matrix_inverse_mod_singular [of K det_round] by auto
qed

lemma np_dot_square:
  assumes "length A = n" "\<And>j. j < n \<Longrightarrow> length (A ! j) = n" "length v = n"
  shows "np_dot A v = Inr (map (\<lambda>j. \<Sum>i<n. A ! j ! i * v ! i) [0..<n])"
proof -
  have c: "ncols A = n"
  proof (cases A)
    case Nil
    then show ?thesis using assms(1) by (simp add: ncols_def)
  next
    case (Cons row rest)
    then have "0 < n" using assms(1) by auto
    then have "length (A ! 0) = n" by (rule assms(2))
    then show ?thesis using Cons by (simp add: ncols_def)
  qed
  have "map (\<lambda>row. \<Sum>(a, x)\<leftarrow>zip row v. a * x) A = map (\<lambda>j. \<Sum>i<n. A ! j ! i * v ! i) [0..<n]"
  proof (rule nth_equalityI)
    show "length (map (\<lambda>row. \<Sum>(a, x)\<leftarrow>zip row v. a * x) A)
            = length (map (\<lambda>j. \<Sum>i<n. A ! j ! i * v ! i) [0..<n])"
      using assms(1) by simp
  next
    fix j assume "j < length (map (\<lambda>row. \<Sum>(a, x)\<leftarrow>zip row v. a * x) A)"
    then have j: "j < n" using assms(1) by simp
    have "length (A ! j) = length v" using assms(2) [OF j] assms(3) by simp
    then have "(\<Sum>(a, x)\<leftarrow>zip (A ! j) v. a * x) = (\<Sum>i<n. A ! j ! i * v ! i)"
      using sum_list_zip_nth [of "A ! j" v] assms(2) [OF j] by simp
    then show "map (\<lambda>row. \<Sum>(a, x)\<leftarrow>zip row v. a * x) A ! j
                 = map (\<lambda>j. \<Sum>i<n. A ! j ! i * v ! i) [0..<n] ! j"
      using j assms(1) by simp
  qed
  then show ?thesis using c assms(3) by (simp add: np_dot_def)
qed

text \<open>
  When the rounded determinants of the key and of its minors are exact, \<open>decrypt_block\<close>
  returns every block of byte values from its encryption.
\<close>

lemma decrypt_block_encrypt_block_exact_determinants:
  assumes key: "set_key_matrix det_round self0 K = (True, None, self)"
    and exK: "det_round K = det K"
    and exm: "\<forall>i<length K. \<forall>j<length K. det_round (minor K i j) = det (minor K i j)"
    and len: "length b = length K"
    and bytes: "\<forall>x\<in>set b. 0 \<le> x \<and> x \<le> 255"
  shows "\<exists>c. encrypt_block self b = Inr c \<and> decrypt_block self c = Inr b"
proof -
  let ?n = "length K"
  obtain Kinv where inv: "matrix_inverse_mod det_round K 256 = Inr Kinv"
    and km: "key_matrix self = Some K" and ikm: "inverse_key_matrix self = Some Kinv"
    using key by (auto simp: set_key_matrix_def Let_def split: sum.splits)
  have sq: "is_square K" and unit: "gcd (det K mod 256) 256 = 1"
    using matrix_inverse_mod_Inr [OF inv] exK by simp_all
  note e = inverse_times_key_entry [OF sq unit exK exm inv]
  define c where "c = map (\<lambda>i. (\<Sum>k<?n. K ! i ! k * b ! k) mod 256) [0..<?n]"
  have "np_dot K b = Inr (map (\<lambda>j. \<Sum>i<?n. K ! j ! i * b ! i) [0..<?n])"
    by (rule np_dot_square) (simp_all add: is_square_nth [OF sq] len)
  then have enc: "encrypt_block self b = Inr c"
    by (simp add: encrypt_block_def km c_def o_def)
  have "np_dot Kinv c = Inr (map (\<lambda>j. \<Sum>i<?n. Kinv ! j ! i * c ! i) [0..<?n])"
    by (rule np_dot_square) (simp_all add: e(1) e(2) c_def)
  then have dec: "decrypt_block self c
                    = Inr (map (\<lambda>j. (\<Sum>i<?n. Kinv ! j ! i * c ! i) mod 256) [0..<?n])"
    by (simp add: decrypt_block_def ikm o_def)
  have "map (\<lambda>j. (\<Sum>i<?n. Kinv ! j ! i * c ! i) mod 256) [0..<?n] = b"
  proof (rule nth_equalityI)
    show "length (map (\<lambda>j. (\<Sum>i<?n. Kinv ! j ! i * c ! i) mod 256) [0..<?n]) = length b"
      by (simp add: len)
  next
    fix j assume "j < length (map (\<lambda>j. (\<Sum>i<?n. Kinv ! j ! i * c ! i) mod 256) [0..<?n])"
    then have j: "j < ?n" by simp
    have "b ! j \<in> set b" using j len by simp
    then have "0 \<le> b ! j \<and> b ! j \<le> 255" using bytes by blast
    then have bj: "b ! j mod 256 = b ! j" by simp
    have "(\<Sum>i<?n. Kinv ! j ! i * c ! i) mod 256
            = (\<Sum>i<?n. Kinv ! j ! i * (\<Sum>k<?n. K ! i ! k * b ! k)) mod 256"
      by (rule mod_sum_cong) (simp add: c_def mod_mult_right_eq)
    also have "(\<Sum>i<?n. Kinv ! j ! i * (\<Sum>k<?n. K ! i ! k * b ! k))
                 = (\<Sum>i<?n. \<Sum>k<?n. Kinv ! j ! i * K ! i ! k * b ! k)"
      by (simp add: sum_distrib_left mult.assoc)
    also have "\<dots> = (\<Sum>k<?n. \<Sum>i<?n. Kinv ! j ! i * K ! i ! k * b ! k)"
      by (rule sum.swap)
    also have "\<dots> = (\<Sum>k<?n. (\<Sum>i<?n. Kinv ! j ! i * K ! i ! k) * b ! k)"
      by (simp add: sum_distrib_right)
    also have "\<dots> mod 256 = (\<Sum>k<?n. (if j = k then 1 else 0) * b ! k) mod 256"
    proof (rule mod_sum_cong)
      fix k assume "k \<in> {..<?n}"
      then have k: "k < ?n" by simp
      have "((\<Sum>i<?n. Kinv ! j ! i * K ! i ! k) * b ! k) mod 256
              = ((\<Sum>i<?n. Kinv ! j ! i * K ! i ! k) mod 256 * b ! k) mod 256"
        by (simp add: mod_mult_left_eq)
      then show "((\<Sum>i<?n. Kinv ! j ! i * K ! i ! k) * b ! k) mod 256
              = ((if j = k then 1 else 0) * b ! k) mod 256"
        by (simp only: e(4) [OF j k])
    qed
    also have "(\<Sum>k<?n. (if j = k then 1 else 0) * b ! k) = b ! j"
      using j by (simp add: if_distrib [of "\<lambda>x. x * _"] sum.delta' cong: if_cong)
    finally show "map (\<lambda>j. (\<Sum>i<?n. Kinv ! j ! i * c ! i) mod 256) [0..<?n] ! j = b ! j"
      using j bj by simp
  qed
  then show ?thesis using enc dec by simp
qed

section \<open>Determinants that no float64 holds\<close>

lemma float64_large_even:
  assumes "is_float64_int n" "2 ^ 53 \<le> \<bar>n\<bar>"
  shows "even n"
proof (rule ccontr)
  assume "odd n"
  then have "odd_part n = n" by (simp add: odd_part.simps)
  then show False using assms by (simp add: is_float64_int_def)
qed

lemma even_not_unit_256:
  assumes "even (d::int)"
  shows "gcd (d mod 256) 256 \<noteq> 1"
proof
  assume g: "gcd (d mod 256) 256 = 1"
  have "even (d mod 256)" using assms by (simp add: dvd_mod_iff)
  then have "2 dvd gcd (d mod 256) 256" by simp
  then show False using g by simp
qed

lemma det_255_I7: "det key_255_I7 = 70110209207109375"
  by code_simp

lemma det_big_2x2: "det key_big_2x2 = 18014398777917441"
  by code_simp

lemma not_float64_big: "\<not> is_float64_int 18014398777917441"
  by code_simp

lemma float64_examples: "is_float64_int 18014398777917440" "is_float64_int 70110209207109376"
  by code_simp+

text \<open>
  C5 at a failing input: the determinant that the engine uses for the key
  \<open>[[134217729, 0], [0, 134217729]]\<close> is the value of a float64, and the exact
  determinant \<open>2^54 + 2^28 + 1\<close> is not: whatever \<open>np.linalg.det\<close> returns, the rounded
  value differs from the exact determinant.
\<close>

theorem rounded_determinant_not_exact:
  assumes "is_float64_int (det_round key_big_2x2)"
  shows "det_round key_big_2x2 \<noteq> det key_big_2x2"
  using assms not_float64_big by (auto simp: det_big_2x2)

theorem rounded_determinant_not_exact_witness:
  "is_float64_int ((\<lambda>M. 18014398777917440) key_big_2x2)
   \<and> (\<lambda>M. 18014398777917440) key_big_2x2 \<noteq> det key_big_2x2"
  using rounded_determinant_not_exact [of "\<lambda>M. 18014398777917440"] float64_examples(1)
  by simp

lemma matrix_inverse_mod_large_det:
  assumes "is_square M" "is_float64_int (det_round M)" "2 ^ 53 \<le> \<bar>det_round M\<bar>"
  shows "matrix_inverse_mod det_round M 256 = Inl (ValueError ''Modular inverse does not exist'')"
  using assms(1) even_not_unit_256 [OF float64_large_even [OF assms(2,3)]]
  by (rule matrix_inverse_mod_singular)

text \<open>
  C8 at a failing input: the determinant \<open>2^54 + 2^28 + 1\<close> of
  \<open>[[134217729, 0], [0, 134217729]]\<close> is odd, a unit modulo 256. Its rounded
  floating-point value is a float64 of magnitude at least \<open>2^53\<close>, so it is even:
  \<open>set_key_matrix\<close> answers False with the ValueError of \<open>mod_inverse\<close>, and the
  instance holds the rejected matrix afterwards.
\<close>

theorem set_key_matrix_rejects_unit_determinant:
  assumes "is_float64_int (det_round key_big_2x2)"
    and "2 ^ 53 \<le> \<bar>det_round key_big_2x2\<bar>"
  shows "is_square key_big_2x2
       \<and> gcd (det key_big_2x2 mod 256) 256 = 1
       \<and> set_key_matrix det_round self key_big_2x2
           = (False, Some (ValueError ''Modular inverse does not exist''),
              self\<lparr>key_matrix := Some key_big_2x2\<rparr>)"
proof -
  have s: "is_square key_big_2x2" by code_simp
  have g: "gcd (det key_big_2x2 mod 256) 256 = 1"
    unfolding det_big_2x2 by code_simp
  have "matrix_inverse_mod det_round key_big_2x2 256
          = Inl (ValueError ''Modular inverse does not exist'')"
    using s assms by (rule matrix_inverse_mod_large_det)
  then show ?thesis using s g by (simp add: set_key_matrix_def)
qed

theorem set_key_matrix_rejects_unit_determinant_witness:
  "is_float64_int ((\<lambda>M. 18014398777917440) key_big_2x2)
   \<and> (2::int) ^ 53 \<le> \<bar>(\<lambda>M. 18014398777917440) key_big_2x2\<bar>
   \<and> gcd (det key_big_2x2 mod 256) 256 = 1
   \<and> set_key_matrix (\<lambda>M. 18014398777917440) new_cipher key_big_2x2
       = (False, Some (ValueError ''Modular inverse does not exist''),
          new_cipher\<lparr>key_matrix := Some key_big_2x2\<rparr>)"
proof -
  have a: "is_float64_int ((\<lambda>M. 18014398777917440) key_big_2x2)"
    using float64_examples(1) by simp
  have b: "(2::int) ^ 53 \<le> \<bar>(\<lambda>M. 18014398777917440) key_big_2x2\<bar>" by simp
  show ?thesis
    using set_key_matrix_rejects_unit_determinant [OF a b, of new_cipher] a b by simp
qed

text \<open>
  C3 at a failing input: the matrix \<open>255 * I\<close> of dimension 7 has entries in \<open>[0, 255]\<close>
  and the odd determinant \<open>255^7\<close>, above \<open>2^55\<close>. Its rounded floating-point value is a
  float64 of magnitude at least \<open>2^53\<close>, so it is even, and \<open>matrix_inverse_mod\<close> raises
  ``Modular inverse does not exist'' instead of returning the inverse.
\<close>

theorem matrix_inverse_mod_rejects_unit_determinant:
  assumes "is_float64_int (det_round key_255_I7)"
    and "2 ^ 53 \<le> \<bar>det_round key_255_I7\<bar>"
  shows "is_square key_255_I7
       \<and> list_all (list_all (\<lambda>x. 0 \<le> x \<and> x \<le> 255)) key_255_I7
       \<and> gcd (det key_255_I7 mod 256) 256 = 1
       \<and> matrix_inverse_mod det_round key_255_I7 256
           = Inl (ValueError ''Modular inverse does not exist'')"
proof -
  have s: "is_square key_255_I7" by code_simp
  have r: "list_all (list_all (\<lambda>x. 0 \<le> x \<and> x \<le> 255)) key_255_I7" by code_simp
  have g: "gcd (det key_255_I7 mod 256) 256 = 1"
    unfolding det_255_I7 by code_simp
  have "matrix_inverse_mod det_round key_255_I7 256
          = Inl (ValueError ''Modular inverse does not exist'')"
    using s assms by (rule matrix_inverse_mod_large_det)
  then show ?thesis using s r g by simp
qed

theorem matrix_inverse_mod_rejects_unit_determinant_witness:
  "is_float64_int ((\<lambda>M. 70110209207109376) key_255_I7)
   \<and> (2::int) ^ 53 \<le> \<bar>(\<lambda>M. 70110209207109376) key_255_I7\<bar>
   \<and> det key_255_I7 = 70110209207109375
   \<and> gcd (det key_255_I7 mod 256) 256 = 1
   \<and> matrix_inverse_mod (\<lambda>M. 70110209207109376) key_255_I7 256
       = Inl (ValueError ''Modular inverse does not exist'')"
proof -
  have a: "is_float64_int ((\<lambda>M. 70110209207109376) key_255_I7)"
    using float64_examples(2) by simp
  have b: "(2::int) ^ 53 \<le> \<bar>(\<lambda>M. 70110209207109376) key_255_I7\<bar>" by simp
  show ?thesis
    using matrix_inverse_mod_rejects_unit_determinant [OF a b] a b det_255_I7 by simp
qed

lemma minors_x3:
  "minor key_x3 0 0 = [[1, 0], [134217729, 1]]"
  "minor key_x3 0 (Suc 0) = [[134217729, 0], [0, 1]]"
  "minor key_x3 0 2 = [[134217729, 1], [0, 134217729]]"
  "minor key_x3 (Suc 0) 0 = [[0, 0], [134217729, 1]]"
  "minor key_x3 (Suc 0) (Suc 0) = [[1, 0], [0, 1]]"
  "minor key_x3 (Suc 0) 2 = [[1, 0], [0, 134217729]]"
  "minor key_x3 2 0 = [[0, 0], [1, 0]]"
  "minor key_x3 2 (Suc 0) = [[1, 0], [134217729, 0]]"
  "minor key_x3 2 2 = [[1, 0], [134217729, 1]]"
  by code_simp+

lemma det_minors_x3:
  "det [[1, 0], [134217729, 1]] = 1"
  "det [[134217729, 0], [0, 1]] = 134217729"
  "det [[0, 0], [134217729, 1]] = 0"
  "det [[1, 0], [0, 1]] = 1"
  "det [[1, 0], [0, 134217729]] = 134217729"
  "det [[0, 0], [1, 0]] = 0"
  "det [[1, 0], [134217729, 0]] = 0"
  "det key_x3 = 1"
  by code_simp+

lemma upt_3: "[0..<3] = [0, 1, 2]"
  by code_simp

lemma adjugate_x3:
  "adjugate_cofactor dr key_x3 256 =
     [[dr (minor key_x3 0 0) mod 256, (- dr (minor key_x3 1 0)) mod 256, dr (minor key_x3 2 0) mod 256],
      [(- dr (minor key_x3 0 1)) mod 256, dr (minor key_x3 1 1) mod 256, (- dr (minor key_x3 2 1)) mod 256],
      [dr (minor key_x3 0 2) mod 256, (- dr (minor key_x3 1 2)) mod 256, dr (minor key_x3 2 2) mod 256]]"
proof -
  have l: "length key_x3 = 3" "ncols key_x3 = 3" by code_simp+
  show ?thesis
    unfolding adjugate_cofactor_def l upt_3 by (simp add: numeral_2_eq_2)
qed

lemma mod_inverse_1: "mod_inverse 1 256 = Inr 1"
  by code_simp

lemma less_3_cases: "(i::nat) < 3 \<Longrightarrow> i = 0 \<or> i = Suc 0 \<or> i = 2"
  by arith

lemma det_round_x3_values:
  "det_round_x3 key_x3 = det key_x3"
  "det_round_x3 [[1, 0], [134217729, 1]] = det [[1, 0], [134217729, 1]]"
  "det_round_x3 [[134217729, 0], [0, 1]] = det [[134217729, 0], [0, 1]]"
  "det_round_x3 [[0, 0], [134217729, 1]] = det [[0, 0], [134217729, 1]]"
  "det_round_x3 [[1, 0], [0, 1]] = det [[1, 0], [0, 1]]"
  "det_round_x3 [[1, 0], [0, 134217729]] = det [[1, 0], [0, 134217729]]"
  "det_round_x3 [[0, 0], [1, 0]] = det [[0, 0], [1, 0]]"
  "det_round_x3 [[1, 0], [134217729, 0]] = det [[1, 0], [134217729, 0]]"
  "det_round_x3 [[134217729, 1], [0, 134217729]] = 18014398777917440"
  by code_simp+

text \<open>
  C2 at a failing input: the key \<open>[[1, 0, 0], [x, 1, 0], [0, x, 1]]\<close> with
  \<open>x = 134217729\<close> has determinant 1. Its determinant and those of eight of its minors
  are small and taken as computed exactly; the minor \<open>[[x, 1], [0, x]]\<close> has the odd
  determinant \<open>x^2 = 2^54 + 2^28 + 1\<close>, whose rounded floating-point value is a float64
  of magnitude at least \<open>2^53\<close> and so even. \<open>set_key_matrix\<close> accepts the key, the block
  \<open>[1, 0, 0]\<close> is encrypted to \<open>[1, 1, 0]\<close>, and \<open>decrypt_block\<close> returns \<open>[1, 0, t]\<close>
  with \<open>t\<close> odd, not the block.
\<close>

theorem decrypt_block_encrypt_block_inexact_minor:
  assumes k: "det_round key_x3 = det key_x3"
    and m: "\<forall>i<3. \<forall>j<3. (i, j) \<noteq> (0, 2) \<longrightarrow> det_round (minor key_x3 i j) = det (minor key_x3 i j)"
    and f: "is_float64_int (det_round (minor key_x3 0 2))"
    and b: "2 ^ 53 \<le> \<bar>det_round (minor key_x3 0 2)\<bar>"
  shows "\<exists>self t. set_key_matrix det_round (new_cipher\<lparr>block_size := 3\<rparr>) key_x3 = (True, None, self)
           \<and> gcd (det key_x3 mod 256) 256 = 1
           \<and> encrypt_block self [1, 0, 0] = Inr [1, 1, 0]
           \<and> decrypt_block self [1, 1, 0] = Inr [1, 0, t] \<and> odd t"
proof -
  let ?d = "det_round [[134217729, 1], [0, 134217729]]"
  have ev: "even ?d" using f b by (intro float64_large_even) (simp_all add: minors_x3)
  have e: "det_round [[1, 0], [134217729, 1]] = 1"
    "det_round [[134217729, 0], [0, 1]] = 134217729"
    "det_round [[0, 0], [134217729, 1]] = 0"
    "det_round [[1, 0], [0, 1]] = 1"
    "det_round [[1, 0], [0, 134217729]] = 134217729"
    "det_round [[0, 0], [1, 0]] = 0"
    "det_round [[1, 0], [134217729, 0]] = 0"
    using m [rule_format, of 0 0] m [rule_format, of 0 1] m [rule_format, of 1 0]
      m [rule_format, of 1 1] m [rule_format, of 1 2] m [rule_format, of 2 0]
      m [rule_format, of 2 1]
    by (simp_all add: minors_x3 det_minors_x3)
  have sq: "is_square key_x3" by code_simp
  have len: "length key_x3 \<noteq> 2" by code_simp
  have inv: "matrix_inverse_mod det_round key_x3 256
               = Inr [[1, 0, 0], [255, 1, 0], [?d mod 256, 255, 1]]"
    using sq len
    by (simp add: matrix_inverse_mod_def k det_minors_x3 mod_inverse_1 adjugate_x3 minors_x3 e
          Let_def)
  define self where "self = new_cipher\<lparr>block_size := 3, key_matrix := Some key_x3,
      inverse_key_matrix := Some [[1, 0, 0], [255, 1, 0], [?d mod 256, 255, 1]]\<rparr>"
  have s: "set_key_matrix det_round (new_cipher\<lparr>block_size := 3\<rparr>) key_x3 = (True, None, self)"
    by (simp add: set_key_matrix_def inv self_def)
  have g: "gcd (det key_x3 mod 256) 256 = 1"
    unfolding det_minors_x3 by code_simp
  have enc: "encrypt_block self [1, 0, 0] = Inr [1, 1, 0]"
    by (simp add: encrypt_block_def self_def np_dot_def ncols_def key_x3_def)
  have dec: "decrypt_block self [1, 1, 0] = Inr [1, 0, (?d mod 256 + 255) mod 256]"
    by (simp add: decrypt_block_def self_def np_dot_def ncols_def)
  have "odd (?d mod 256 + 255)" using ev by (simp add: dvd_mod_iff)
  then have o: "odd ((?d mod 256 + 255) mod 256)" by (simp add: dvd_mod_iff)
  show ?thesis
    by (intro exI [of _ self] exI [of _ "(?d mod 256 + 255) mod 256"] conjI s g enc dec o)
qed

theorem decrypt_block_encrypt_block_inexact_minor_witness:
  "\<exists>self. set_key_matrix det_round_x3 (new_cipher\<lparr>block_size := 3\<rparr>) key_x3 = (True, None, self)
         \<and> det [[134217729, 1], [0, 134217729]] = 18014398777917441
         \<and> encrypt_block self [1, 0, 0] = Inr [1, 1, 0]
         \<and> decrypt_block self [1, 1, 0] = Inr [1, 0, 255]"
proof -
  have m: "\<forall>i<3. \<forall>j<3. (i, j) \<noteq> (0, 2) \<longrightarrow> det_round_x3 (minor key_x3 i j) = det (minor key_x3 i j)"
  proof (intro allI impI)
    fix i j :: nat assume a: "i < 3" "j < 3" "(i, j) \<noteq> (0, 2)"
    show "det_round_x3 (minor key_x3 i j) = det (minor key_x3 i j)"
      using less_3_cases [OF a(1)] less_3_cases [OF a(2)] a(3)
      by (elim disjE) (simp_all add: minors_x3 det_round_x3_values)
  qed
  have v: "det_round_x3 (minor key_x3 0 2) = 18014398777917440"
    by (simp only: minors_x3 det_round_x3_values)
  have f: "is_float64_int (det_round_x3 (minor key_x3 0 2))"
    unfolding v by (rule float64_examples(1))
  have b: "2 ^ 53 \<le> \<bar>det_round_x3 (minor key_x3 0 2)\<bar>" unfolding v by simp
  obtain self t where r: "set_key_matrix det_round_x3 (new_cipher\<lparr>block_size := 3\<rparr>) key_x3 = (True, None, self)"
      "encrypt_block self [1, 0, 0] = Inr [1, 1, 0]"
      "decrypt_block self [1, 1, 0] = Inr [1, 0, t]"
    using decrypt_block_encrypt_block_inexact_minor
      [of det_round_x3, OF det_round_x3_values(1) m f b] by blast
  have "matrix_inverse_mod det_round_x3 key_x3 256 = Inr [[1, 0, 0], [255, 1, 0], [0, 255, 1]]"
    by code_simp
  then have "self = new_cipher\<lparr>block_size := 3, key_matrix := Some key_x3,
      inverse_key_matrix := Some [[1, 0, 0], [255, 1, 0], [0, 255, 1]]\<rparr>"
    using r(1) by (simp add: set_key_matrix_def)
  then have d: "decrypt_block self [1, 1, 0] = Inr [1, 0, 255]"
    by (simp add: decrypt_block_def np_dot_def ncols_def)
  have x: "det [[134217729, 1], [0, 134217729]] = 18014398777917441" by code_simp
  show ?thesis by (intro exI [of _ self] conjI r(1) x r(2) d)
qed

end
